theory Spec2Isabelle
  imports Main
begin

section \<open>Vectors, errors and loops\<close>

text \<open>
  The C++ sources work on \<open>int\<close> indices into \<open>std::vector\<close>s. No arithmetic
  beyond a loop counter running up to the vertex count is done on them, so they are modelled
  as unbounded integers. A vector is a list; an index outside the vector is undefined
  behaviour in C++ and is written out as the error \<open>OutOfBounds\<close>. The exception
  \<open>std::invalid_argument\<close> is \<open>InvalidArgument\<close>.

  A vector built from an \<open>int\<close> count converts the count to its unsigned 64-bit size
  type. For a vector of \<open>int\<close>s or of vectors the GNU library checks the size first, so a
  negative count is \<open>LengthError\<close> (\<open>std::length_error\<close>).
\<close>

datatype error = InvalidArgument | LengthError | BadAlloc | OutOfBounds

definition vector :: "int \<Rightarrow> 'a \<Rightarrow> error + 'a list" where
  "vector n x = (if n < 0 then Inl LengthError else Inr (replicate (nat n) x))"

text \<open>
  \<open>std::vector<bool>(n, x)\<close> packs its flags into 64-bit words and does not check the
  size. The number of words is the size plus 63, divided by 64, in unsigned 64-bit
  arithmetic. For a count from \<open>-63\<close> to \<open>-1\<close> the sum wraps around and the number of
  words is \<open>0\<close>: nothing is allocated and no index lies inside the storage. For a count
  of \<open>-64\<close> or less the request is for more than \<open>2^60\<close> bytes and fails with
  \<open>std::bad_alloc\<close>, which is \<open>BadAlloc\<close>.
\<close>

definition vector_bool :: "int \<Rightarrow> bool \<Rightarrow> error + bool list" where
  "vector_bool n x =
     (if 0 \<le> n then Inr (replicate (nat n) x)
      else if - 64 < n then Inr []
      else Inl BadAlloc)"

definition in_bounds :: "'a list \<Rightarrow> int \<Rightarrow> bool" where
  "in_bounds xs i \<longleftrightarrow> 0 \<le> i \<and> i < int (length xs)"

definition at :: "'a list \<Rightarrow> int \<Rightarrow> error + 'a" where
  "at xs i = (if in_bounds xs i then Inr (xs ! nat i) else Inl OutOfBounds)"

definition put :: "'a list \<Rightarrow> int \<Rightarrow> 'a \<Rightarrow> error + 'a list" where
  "put xs i x = (if in_bounds xs i then Inr (xs[nat i := x]) else Inl OutOfBounds)"

text \<open>A range-based \<open>for\<close> loop without \<open>break\<close>: the body is run on each element in
  turn and the first error leaves the loop.\<close>

fun for_each :: "'a list \<Rightarrow> ('a \<Rightarrow> 's \<Rightarrow> error + 's) \<Rightarrow> 's \<Rightarrow> error + 's" where
  "for_each [] body s = Inr s"
| "for_each (x # xs) body s =
     (case body x s of Inl err \<Rightarrow> Inl err | Inr s' \<Rightarrow> for_each xs body s')"

section \<open>graph.hpp: edges and the graph\<close>

datatype Edge = Edge (edge_u: int) (edge_v: int)

text \<open>\<open>Edge::operator==\<close> (graph.hpp, lines 13-15): equality of undirected edges.\<close>

definition edge_eq :: "Edge \<Rightarrow> Edge \<Rightarrow> bool" where
  "edge_eq a b \<longleftrightarrow>
     (edge_u a = edge_u b \<and> edge_v a = edge_v b) \<or> (edge_u a = edge_v b \<and> edge_v a = edge_u b)"

record MinEdgeCover =
  mec_n :: int
  mec_edges :: "Edge list"
  mec_adj :: "int list list"

text \<open>The statement \<open>adj[i].push_back(x)\<close>.\<close>

definition push_back_at :: "int list list \<Rightarrow> int \<Rightarrow> int \<Rightarrow> error + int list list" where
  "push_back_at adj i x =
     (case at adj i of Inl err \<Rightarrow> Inl err | Inr row \<Rightarrow> put adj i (row @ [x]))"

text \<open>The body of the constructor's loop over the edges (graph.hpp, lines 112-118).\<close>

definition add_edge :: "int \<Rightarrow> Edge \<Rightarrow> int list list \<Rightarrow> error + int list list" where
  "add_edge n e adj =
     (if edge_u e < 0 \<or> edge_u e \<ge> n \<or> edge_v e < 0 \<or> edge_v e \<ge> n then Inl InvalidArgument
      else case push_back_at adj (edge_u e) (edge_v e) of
             Inl err \<Rightarrow> Inl err
           | Inr adj1 \<Rightarrow> push_back_at adj1 (edge_v e) (edge_u e))"

text \<open>The body of the constructor's loop over the vertices (graph.hpp, lines 121-125).\<close>

definition check_not_isolated :: "int list list \<Rightarrow> int \<Rightarrow> unit \<Rightarrow> error + unit" where
  "check_not_isolated adj i s =
     (case at adj i of Inl err \<Rightarrow> Inl err
      | Inr row \<Rightarrow> if row = [] then Inl InvalidArgument else Inr ())"

text \<open>
  The constructor \<open>MinEdgeCover(vertices, edgeList)\<close> (graph.hpp, lines 104-126). The
  member initialisers
  \<open>n(vertices), edges(edgeList), adj(vertices)\<close> run before the body, so the adjacency vector
  is built before \<open>vertices <= 0\<close> is tested.
\<close>

definition new_MinEdgeCover :: "int \<Rightarrow> Edge list \<Rightarrow> error + MinEdgeCover" where
  "new_MinEdgeCover vertices edgeList =
     (case vector vertices [] of
        Inl err \<Rightarrow> Inl err
      | Inr adj0 \<Rightarrow>
          if vertices \<le> 0 then Inl InvalidArgument
          else case for_each edgeList (add_edge vertices) adj0 of
                 Inl err \<Rightarrow> Inl err
               | Inr adj1 \<Rightarrow>
                   (case for_each [0..vertices - 1] (check_not_isolated adj1) () of
                      Inl err \<Rightarrow> Inl err
                    | Inr _ \<Rightarrow>
                        Inr \<lparr>mec_n = vertices, mec_edges = edgeList, mec_adj = adj1\<rparr>))"

section \<open>graph.hpp: the cover verifier\<close>

text \<open>The body of the marking loops of \<open>isEdgeCover\<close> and \<open>solve\<close>:
  \<open>covered[e.u] = true; covered[e.v] = true\<close>.\<close>

definition mark_edge :: "Edge \<Rightarrow> bool list \<Rightarrow> error + bool list" where
  "mark_edge e covered =
     (case put covered (edge_u e) True of
        Inl err \<Rightarrow> Inl err
      | Inr c1 \<Rightarrow> put c1 (edge_v e) True)"

text \<open>The last loop of \<open>isEdgeCover\<close> (graph.hpp, lines 164-166), which returns
  \<open>false\<close> at the first uncovered vertex.\<close>

fun all_covered :: "bool list \<Rightarrow> int list \<Rightarrow> error + bool" where
  "all_covered covered [] = Inr True"
| "all_covered covered (i # is) =
     (case at covered i of
        Inl err \<Rightarrow> Inl err
      | Inr c \<Rightarrow> if \<not> c then Inr False else all_covered covered is)"

text \<open>\<open>isEdgeCover(n, cover)\<close> (graph.hpp, lines 158-168).\<close>

definition isEdgeCover :: "int \<Rightarrow> Edge list \<Rightarrow> error + bool" where
  "isEdgeCover n cover =
     (case vector_bool n False of
        Inl err \<Rightarrow> Inl err
      | Inr covered0 \<Rightarrow>
          (case for_each cover mark_edge covered0 of
             Inl err \<Rightarrow> Inl err
           | Inr covered \<Rightarrow> all_covered covered [0..n - 1]))"

section \<open>graph.hpp: the matching engine\<close>

text \<open>
  The state of the greedy loop of \<open>findMaxMatching\<close> (graph.hpp, lines 31-38): the arrays
  \<open>match\<close> and \<open>used\<close> and the vector \<open>matching\<close>. Its body tests
  \<open>!used[e.u] && !used[e.v]\<close> left to right.
\<close>

definition greedy_step ::
  "Edge \<Rightarrow> int list \<times> bool list \<times> Edge list \<Rightarrow> error + int list \<times> bool list \<times> Edge list" where
  "greedy_step e s =
     (case s of (match, used, matching) \<Rightarrow>
        (case at used (edge_u e) of
           Inl err \<Rightarrow> Inl err
         | Inr used_u \<Rightarrow>
             if used_u then Inr s
             else (case at used (edge_v e) of
                     Inl err \<Rightarrow> Inl err
                   | Inr used_v \<Rightarrow>
                       if used_v then Inr s
                       else (case put match (edge_u e) (edge_v e) of
                               Inl err \<Rightarrow> Inl err
                             | Inr m1 \<Rightarrow>
                                 (case put m1 (edge_v e) (edge_u e) of
                                    Inl err \<Rightarrow> Inl err
                                  | Inr m2 \<Rightarrow>
                                      (case put used (edge_v e) True of
                                         Inl err \<Rightarrow> Inl err
                                       | Inr u1 \<Rightarrow>
                                           (case put u1 (edge_u e) True of
                                              Inl err \<Rightarrow> Inl err
                                            | Inr u2 \<Rightarrow> Inr (m2, u2, matching @ [e]))))))))"

text \<open>The locals of one pass of the improvement loop: the queue \<open>q\<close>, the arrays
  \<open>visited\<close> and \<open>parent\<close>, and \<open>pathEnd\<close>.\<close>

record bfs_state =
  queue :: "int list"
  visited :: "bool list"
  parent :: "int list"
  pathEnd :: int

text \<open>The body of the loop that queues the unmatched vertices (graph.hpp, lines 49-54).\<close>

definition enqueue_unmatched :: "int list \<Rightarrow> int \<Rightarrow> bfs_state \<Rightarrow> error + bfs_state" where
  "enqueue_unmatched match i st =
     (case at match i of
        Inl err \<Rightarrow> Inl err
      | Inr m \<Rightarrow>
          if m = - 1
          then (case put (visited st) i True of
                  Inl err \<Rightarrow> Inl err
                | Inr vis \<Rightarrow> Inr (st\<lparr>queue := queue st @ [i], visited := vis\<rparr>))
          else Inr st)"

text \<open>The loop \<open>for (int v : adj[u])\<close> of the search (graph.hpp, lines 61-75), left by \<open>break\<close> when
  \<open>pathEnd\<close> is set.\<close>

fun scan :: "int list \<Rightarrow> int \<Rightarrow> int list \<Rightarrow> bfs_state \<Rightarrow> error + bfs_state" where
  "scan match u [] st = Inr st"
| "scan match u (v # vs) st =
     (case at (visited st) v of
        Inl err \<Rightarrow> Inl err
      | Inr seen \<Rightarrow>
          if seen then scan match u vs st
          else (case put (visited st) v True of
                  Inl err \<Rightarrow> Inl err
                | Inr vis1 \<Rightarrow>
                    (case put (parent st) v u of
                       Inl err \<Rightarrow> Inl err
                     | Inr par1 \<Rightarrow>
                         (case at match v of
                            Inl err \<Rightarrow> Inl err
                          | Inr mv \<Rightarrow>
                              if mv = - 1
                              then Inr (st\<lparr>visited := vis1, parent := par1, pathEnd := v\<rparr>)
                              else (case put vis1 mv True of
                                      Inl err \<Rightarrow> Inl err
                                    | Inr vis2 \<Rightarrow>
                                        (case put par1 mv v of
                                           Inl err \<Rightarrow> Inl err
                                         | Inr par2 \<Rightarrow>
                                             scan match u vs
                                               (st\<lparr>queue := queue st @ [mv], visited := vis2,
                                                   parent := par2\<rparr>)))))))"

text \<open>The number of \<open>false\<close> entries of a flag array.\<close>

definition unset :: "bool list \<Rightarrow> nat" where
  "unset bs = length (filter (\<lambda>b. \<not> b) bs)"

lemma unset_update_True: "unset (bs[i := True]) \<le> unset bs"
proof (induction bs arbitrary: i)
  case Nil
  then show ?case by (simp add: unset_def)
next
  case (Cons b bs)
  then show ?case by (cases i) (auto simp: unset_def le_SucI)
qed

lemma unset_update_fresh: "i < length bs \<Longrightarrow> \<not> bs ! i \<Longrightarrow> Suc (unset (bs[i := True])) = unset bs"
proof (induction bs arbitrary: i)
  case Nil
  then show ?case by simp
next
  case (Cons b bs)
  then show ?case by (cases i) (auto simp: unset_def)
qed

lemma scan_measure:
  "scan match u vs st = Inr st' \<Longrightarrow>
   length (queue st') + unset (visited st') \<le> length (queue st) + unset (visited st)"
proof (induction vs arbitrary: st)
  case Nil
  then show ?case by simp
next
  case (Cons v vs)
  show ?case
  proof (cases "at (visited st) v")
    case (Inl err)
    with Cons.prems show ?thesis by simp
  next
    case (Inr seen)
    then have vb: "in_bounds (visited st) v" and seen: "seen = visited st ! nat v"
      by (auto simp: at_def split: if_splits)
    show ?thesis
    proof (cases seen)
      case True
      with Cons Inr show ?thesis by simp
    next
      case False
      from vb False seen
      have fresh: "Suc (unset ((visited st)[nat v := True])) = unset (visited st)"
        by (intro unset_update_fresh) (auto simp: in_bounds_def)
      from Cons.prems Inr False vb obtain par1 mv where
        par1: "put (parent st) v u = Inr par1" and mv: "at match v = Inr mv"
        by (auto simp: put_def split: sum.splits)
      show ?thesis
      proof (cases "mv = - 1")
        case True
        with Cons.prems Inr False vb par1 mv
        have "st' = st\<lparr>visited := (visited st)[nat v := True], parent := par1, pathEnd := v\<rparr>"
          by (simp add: put_def)
        with fresh show ?thesis by simp
      next
        case nm: False
        from Cons.prems Inr False vb par1 mv nm obtain vis2 par2 where
          vis2: "put ((visited st)[nat v := True]) mv True = Inr vis2" and
          rest: "scan match u vs
                   (st\<lparr>queue := queue st @ [mv], visited := vis2, parent := par2\<rparr>) = Inr st'"
          by (auto simp: put_def split: sum.splits if_splits)
        from vis2 have "vis2 = ((visited st)[nat v := True])[nat mv := True]"
          by (auto simp: put_def split: if_splits)
        then have "unset vis2 \<le> unset ((visited st)[nat v := True])"
          by (simp add: unset_update_True)
        with Cons.IH [OF rest] fresh show ?thesis by simp
      qed
    qed
  qed
qed

text \<open>The loop \<open>while (!q.empty() && pathEnd == -1)\<close> (graph.hpp, lines 57-76).\<close>

function bfs :: "int list list \<Rightarrow> int list \<Rightarrow> bfs_state \<Rightarrow> error + bfs_state" where
  "bfs adj match st =
     (if queue st \<noteq> [] \<and> pathEnd st = - 1
      then (case at adj (hd (queue st)) of
              Inl err \<Rightarrow> Inl err
            | Inr vs \<Rightarrow>
                (case scan match (hd (queue st)) vs (st\<lparr>queue := tl (queue st)\<rparr>) of
                   Inl err \<Rightarrow> Inl err
                 | Inr st' \<Rightarrow> bfs adj match st'))
      else Inr st)"
  by pat_completeness auto
termination
proof (relation "measure (\<lambda>(adj, match, st). length (queue st) + unset (visited st))")
  show "wf (measure (\<lambda>(adj, match, st). length (queue st) + unset (visited st)))"
    by simp
next
  fix adj :: "int list list" and match :: "int list" and st st' :: bfs_state and vs :: "int list"
  assume c: "queue st \<noteq> [] \<and> pathEnd st = - 1"
    and s: "scan match (hd (queue st)) vs (st\<lparr>queue := tl (queue st)\<rparr>) = Inr st'"
  from scan_measure [OF s] c
  show "((adj, match, st'), (adj, match, st))
          \<in> measure (\<lambda>(adj, match, st). length (queue st) + unset (visited st))"
    by (cases "queue st") auto
qed

declare bfs.simps [simp del]

text \<open>One search pass: fresh \<open>parent\<close> and \<open>visited\<close> arrays, the unmatched vertices
  queued and marked, then the breadth-first loop.\<close>

definition search :: "int \<Rightarrow> int list list \<Rightarrow> int list \<Rightarrow> error + bfs_state" where
  "search n adj match =
     (case vector n (- 1) of
        Inl err \<Rightarrow> Inl err
      | Inr par0 \<Rightarrow>
          (case vector_bool n False of
             Inl err \<Rightarrow> Inl err
           | Inr vis0 \<Rightarrow>
               (case for_each [0..n - 1] (enqueue_unmatched match)
                       \<lparr>queue = [], visited = vis0, parent = par0, pathEnd = - 1\<rparr> of
                  Inl err \<Rightarrow> Inl err
                | Inr st \<Rightarrow> bfs adj match st)))"

text \<open>
  The walk \<open>while (parent[v] != -1)\<close> (graph.hpp, lines 81-88) that flips the matching
  along the path found.
  Nothing in the loop itself bounds the number of its steps, so not returning is the value
  \<open>None\<close>.
\<close>

partial_function (option) augment :: "int list \<Rightarrow> int list \<Rightarrow> int \<Rightarrow> (error + int list) option" where
  "augment par match v =
     (case at par v of
        Inl err \<Rightarrow> Some (Inl err)
      | Inr u \<Rightarrow>
          if u = - 1 then Some (Inr match)
          else (case at par u of
                  Inl err \<Rightarrow> Some (Inl err)
                | Inr prev \<Rightarrow>
                    (case put match v u of
                       Inl err \<Rightarrow> Some (Inl err)
                     | Inr m1 \<Rightarrow>
                         (case put m1 u v of
                            Inl err \<Rightarrow> Some (Inl err)
                          | Inr m2 \<Rightarrow> augment par m2 prev))))"

declare augment.simps [code]

text \<open>The body of the loop that rebuilds \<open>matching\<close> from \<open>match\<close> (graph.hpp, lines
  92-96).\<close>

definition rebuild_step :: "int list \<Rightarrow> int \<Rightarrow> Edge list \<Rightarrow> error + Edge list" where
  "rebuild_step match i matching =
     (case at match i of
        Inl err \<Rightarrow> Inl err
      | Inr m \<Rightarrow> if m \<noteq> - 1 \<and> i < m then Inr (matching @ [Edge i m]) else Inr matching)"

text \<open>
  The loop \<open>while (improved)\<close> (graph.hpp, lines 41-98): a pass that sets \<open>pathEnd\<close> augments, rebuilds
  \<open>matching\<close> and goes round again; a pass that leaves \<open>pathEnd == -1\<close> ends the loop.
  The result is \<open>match\<close> together with \<open>matching\<close>.
\<close>

partial_function (option) improve ::
  "int \<Rightarrow> int list list \<Rightarrow> int list \<Rightarrow> Edge list \<Rightarrow> (error + int list \<times> Edge list) option" where
  "improve n adj match matching =
     (case search n adj match of
        Inl err \<Rightarrow> Some (Inl err)
      | Inr st \<Rightarrow>
          if pathEnd st \<noteq> - 1
          then (case augment (parent st) match (pathEnd st) of
                  None \<Rightarrow> None
                | Some (Inl err) \<Rightarrow> Some (Inl err)
                | Some (Inr match') \<Rightarrow>
                    (case for_each [0..n - 1] (rebuild_step match') [] of
                       Inl err \<Rightarrow> Some (Inl err)
                     | Inr matching' \<Rightarrow> improve n adj match' matching'))
          else Some (Inr (match, matching)))"

declare improve.simps [code]

text \<open>The greedy seed of \<open>findMaxMatching\<close>.\<close>

definition greedy :: "int \<Rightarrow> Edge list \<Rightarrow> error + int list \<times> bool list \<times> Edge list" where
  "greedy n edges =
     (case vector n (- 1) of
        Inl err \<Rightarrow> Inl err
      | Inr match0 \<Rightarrow>
          (case vector_bool n False of
             Inl err \<Rightarrow> Inl err
           | Inr used0 \<Rightarrow> for_each edges greedy_step (match0, used0, [])))"

text \<open>\<open>findMaxMatching\<close> (graph.hpp, lines 25-101) with its local \<open>match\<close> kept
  beside the returned \<open>matching\<close>, and as it returns.\<close>

definition findMaxMatching_state :: "MinEdgeCover \<Rightarrow> (error + int list \<times> Edge list) option" where
  "findMaxMatching_state G =
     (case greedy (mec_n G) (mec_edges G) of
        Inl err \<Rightarrow> Some (Inl err)
      | Inr (match, used, matching) \<Rightarrow> improve (mec_n G) (mec_adj G) match matching)"

definition findMaxMatching :: "MinEdgeCover \<Rightarrow> (error + Edge list) option" where
  "findMaxMatching G = map_option (map_sum id snd) (findMaxMatching_state G)"

section \<open>graph.hpp: the edge cover\<close>

text \<open>The loop over \<open>edges\<close> (graph.hpp, lines 142-150) that covers an uncovered vertex \<open>i\<close> with the first
  incident edge and is left by \<open>break\<close>.\<close>

fun first_incident :: "int \<Rightarrow> Edge list \<Rightarrow> Edge list \<times> bool list \<Rightarrow> error + Edge list \<times> bool list" where
  "first_incident i [] s = Inr s"
| "first_incident i (e # es) s =
     (if edge_u e = i \<or> edge_v e = i
      then (case put (snd s) i True of
              Inl err \<Rightarrow> Inl err
            | Inr c1 \<Rightarrow>
                (case mark_edge e c1 of
                   Inl err \<Rightarrow> Inl err
                 | Inr c2 \<Rightarrow> Inr (fst s @ [e], c2)))
      else first_incident i es s)"

text \<open>The body of the loop of \<open>solve\<close> over the vertices (graph.hpp, lines 140-152).\<close>

definition cover_vertex :: "Edge list \<Rightarrow> int \<Rightarrow> Edge list \<times> bool list \<Rightarrow> error + Edge list \<times> bool list" where
  "cover_vertex edges i s =
     (case at (snd s) i of
        Inl err \<Rightarrow> Inl err
      | Inr c \<Rightarrow> if \<not> c then first_incident i edges s else Inr s)"

text \<open>\<open>solve\<close> (graph.hpp, lines 128-155) after its call of \<open>findMaxMatching\<close>, and
  \<open>solve\<close> itself.\<close>

definition complete_cover :: "MinEdgeCover \<Rightarrow> Edge list \<Rightarrow> error + Edge list" where
  "complete_cover G matching =
     (case vector_bool (mec_n G) False of
        Inl err \<Rightarrow> Inl err
      | Inr covered0 \<Rightarrow>
          (case for_each matching mark_edge covered0 of
             Inl err \<Rightarrow> Inl err
           | Inr covered \<Rightarrow>
               (case for_each [0..mec_n G - 1] (cover_vertex (mec_edges G)) (matching, covered) of
                  Inl err \<Rightarrow> Inl err
                | Inr s \<Rightarrow> Inr (fst s))))"

definition solve :: "MinEdgeCover \<Rightarrow> (error + Edge list) option" where
  "solve G =
     (case findMaxMatching G of
        None \<Rightarrow> None
      | Some (Inl err) \<Rightarrow> Some (Inl err)
      | Some (Inr matching) \<Rightarrow> Some (complete_cover G matching))"

section \<open>main.cpp: the graph and Kuhn's matching\<close>

text \<open>
  The class \<open>Graph\<close> of main.cpp (lines 19-34) keeps the vertex count \<open>V\<close>, the adjacency lists and
  the edges with the smaller endpoint first. \<open>Graph(V)\<close> resizes \<open>adj\<close> to \<open>V\<close>
  rows and \<open>addEdge\<close> indexes them without any check.
\<close>

record Graph =
  graph_V :: int
  graph_adj :: "int list list"
  graph_edges :: "Edge list"

definition new_Graph :: "int \<Rightarrow> error + Graph" where
  "new_Graph V =
     (case vector V [] of
        Inl err \<Rightarrow> Inl err
      | Inr rows \<Rightarrow> Inr \<lparr>graph_V = V, graph_adj = rows, graph_edges = []\<rparr>)"

definition addEdge :: "Edge \<Rightarrow> Graph \<Rightarrow> error + Graph" where
  "addEdge e g =
     (case push_back_at (graph_adj g) (edge_u e) (edge_v e) of
        Inl err \<Rightarrow> Inl err
      | Inr adj1 \<Rightarrow>
          (case push_back_at adj1 (edge_v e) (edge_u e) of
             Inl err \<Rightarrow> Inl err
           | Inr adj2 \<Rightarrow>
               Inr (g\<lparr>graph_adj := adj2,
                      graph_edges := graph_edges g @
                        [Edge (min (edge_u e) (edge_v e)) (max (edge_u e) (edge_v e))]\<rparr>)))"

text \<open>A graph as the drivers of main.cpp build it: \<open>Graph g(V)\<close> and one
  \<open>addEdge\<close> for each edge.\<close>

definition build_Graph :: "int \<Rightarrow> Edge list \<Rightarrow> error + Graph" where
  "build_Graph V es =
     (case new_Graph V of Inl err \<Rightarrow> Inl err | Inr g \<Rightarrow> for_each es addEdge g)"

text \<open>The success branch of \<open>dfs\<close> (main.cpp, lines 53-55):
  \<open>match[to] = v; match[v] = to; return true\<close>.\<close>

definition link :: "int \<Rightarrow> int \<Rightarrow> int list \<times> bool list \<Rightarrow> error + bool \<times> int list \<times> bool list" where
  "link to v s =
     (case put (fst s) to v of
        Inl err \<Rightarrow> Inl err
      | Inr m1 \<Rightarrow>
          (case put m1 v to of
             Inl err \<Rightarrow> Inl err
           | Inr m2 \<Rightarrow> Inr (True, m2, snd s)))"

text \<open>
  \<open>dfs(v, match, used)\<close> (main.cpp, lines 47-59) is the loop
  \<open>for (int to : adj[v])\<close>; \<open>dfs_loop\<close> is
  that loop on the neighbours still to be visited. The arrays \<open>match\<close> and \<open>used\<close>
  are passed by reference, so they are returned beside the result. Not returning is the
  value \<open>None\<close>.
\<close>

partial_function (option) dfs_loop ::
  "int list list \<Rightarrow> int \<Rightarrow> int list \<Rightarrow> int list \<times> bool list \<Rightarrow>
   (error + bool \<times> int list \<times> bool list) option" where
  "dfs_loop adj v tos s =
     (case tos of
        [] \<Rightarrow> Some (Inr (False, s))
      | to # rest \<Rightarrow>
          (case at (snd s) to of
             Inl err \<Rightarrow> Some (Inl err)
           | Inr seen \<Rightarrow>
               if seen then dfs_loop adj v rest s
               else (case put (snd s) to True of
                       Inl err \<Rightarrow> Some (Inl err)
                     | Inr used1 \<Rightarrow>
                         (case at (fst s) to of
                            Inl err \<Rightarrow> Some (Inl err)
                          | Inr mt \<Rightarrow>
                              if mt = - 1 then Some (link to v (fst s, used1))
                              else (case at adj mt of
                                      Inl err \<Rightarrow> Some (Inl err)
                                    | Inr row \<Rightarrow>
                                        Option.bind (dfs_loop adj mt row (fst s, used1))
                                          (\<lambda>r. case r of
                                                 Inl err \<Rightarrow> Some (Inl err)
                                               | Inr (found, s') \<Rightarrow>
                                                   if found then Some (link to v s')
                                                   else dfs_loop adj v rest s'))))))"

declare dfs_loop.simps [code]

definition dfs :: "int list list \<Rightarrow> int \<Rightarrow> int list \<times> bool list \<Rightarrow>
    (error + bool \<times> int list \<times> bool list) option" where
  "dfs adj v s =
     (case at adj v of Inl err \<Rightarrow> Some (Inl err) | Inr row \<Rightarrow> dfs_loop adj v row s)"

text \<open>The loop of Kuhn's \<open>findMaxMatching\<close> (main.cpp, lines 62-73) over the vertices, with a fresh \<open>used\<close>
  array for each unmatched vertex.\<close>

fun kuhn_loop :: "int \<Rightarrow> int list list \<Rightarrow> int list \<Rightarrow> int list \<Rightarrow> (error + int list) option" where
  "kuhn_loop V adj [] match = Some (Inr match)"
| "kuhn_loop V adj (v # vs) match =
     (case at match v of
        Inl err \<Rightarrow> Some (Inl err)
      | Inr m \<Rightarrow>
          if m = - 1
          then (case vector_bool V False of
                  Inl err \<Rightarrow> Some (Inl err)
                | Inr used \<Rightarrow>
                    (case dfs adj v (match, used) of
                       None \<Rightarrow> None
                     | Some (Inl err) \<Rightarrow> Some (Inl err)
                     | Some (Inr r) \<Rightarrow> kuhn_loop V adj vs (fst (snd r))))
          else kuhn_loop V adj vs match)"

definition Graph_findMaxMatching :: "Graph \<Rightarrow> (error + int list) option" where
  "Graph_findMaxMatching g =
     (case vector (graph_V g) (- 1) of
        Inl err \<Rightarrow> Some (Inl err)
      | Inr match0 \<Rightarrow> kuhn_loop (graph_V g) (graph_adj g) [0..graph_V g - 1] match0)"

text \<open>\<open>hasIsolatedVertices\<close> (main.cpp, lines 37-44), which returns \<open>true\<close> at the first empty adjacency
  row.\<close>

fun has_empty_row :: "int list list \<Rightarrow> int list \<Rightarrow> error + bool" where
  "has_empty_row adj [] = Inr False"
| "has_empty_row adj (i # is) =
     (case at adj i of
        Inl err \<Rightarrow> Inl err
      | Inr row \<Rightarrow> if row = [] then Inr True else has_empty_row adj is)"

definition hasIsolatedVertices :: "Graph \<Rightarrow> error + bool" where
  "hasIsolatedVertices g = has_empty_row (graph_adj g) [0..graph_V g - 1]"

text \<open>\<open>Edge::operator<\<close> of main.cpp, and \<open>insert\<close> into the \<open>std::set<Edge>\<close> it
  orders: the set is the list of its elements in increasing order, and an element
  equivalent to one already there is not inserted.\<close>

definition edge_less :: "Edge \<Rightarrow> Edge \<Rightarrow> bool" where
  "edge_less a b \<longleftrightarrow> (if edge_u a \<noteq> edge_u b then edge_u a < edge_u b else edge_v a < edge_v b)"

fun set_insert :: "Edge \<Rightarrow> Edge list \<Rightarrow> Edge list" where
  "set_insert e [] = [e]"
| "set_insert e (x # xs) =
     (if edge_less e x then e # x # xs
      else if edge_less x e then x # set_insert e xs
      else x # xs)"

text \<open>The body of the loop of \<open>findMinEdgeCover\<close> that adds the matched pairs.\<close>

definition add_matched_pair :: "int list \<Rightarrow> int \<Rightarrow> Edge list \<times> bool list \<Rightarrow> error + Edge list \<times> bool list" where
  "add_matched_pair match v s =
     (case at match v of
        Inl err \<Rightarrow> Inl err
      | Inr m \<Rightarrow>
          if m \<noteq> - 1 \<and> v < m
          then (case put (snd s) v True of
                  Inl err \<Rightarrow> Inl err
                | Inr c1 \<Rightarrow>
                    (case put c1 m True of
                       Inl err \<Rightarrow> Inl err
                     | Inr c2 \<Rightarrow> Inr (set_insert (Edge v m) (fst s), c2)))
          else Inr s)"

text \<open>The body of the loop of \<open>findMinEdgeCover\<close> that covers an uncovered vertex with
  the edge to its first neighbour.\<close>

definition add_first_neighbour ::
  "int list list \<Rightarrow> int \<Rightarrow> Edge list \<times> bool list \<Rightarrow> error + Edge list \<times> bool list" where
  "add_first_neighbour adj v s =
     (case at (snd s) v of
        Inl err \<Rightarrow> Inl err
      | Inr c \<Rightarrow>
          if c then Inr s
          else (case at adj v of
                  Inl err \<Rightarrow> Inl err
                | Inr row \<Rightarrow>
                    (case row of
                       [] \<Rightarrow> Inr s
                     | u # _ \<Rightarrow>
                         (case put (snd s) v True of
                            Inl err \<Rightarrow> Inl err
                          | Inr c1 \<Rightarrow>
                              (case put c1 u True of
                                 Inl err \<Rightarrow> Inl err
                               | Inr c2 \<Rightarrow>
                                   Inr (set_insert (Edge (min v u) (max v u)) (fst s), c2))))))"

text \<open>\<open>findMinEdgeCover\<close> of main.cpp (lines 76-109); on a graph with an isolated vertex it reports
  the error on \<open>cerr\<close> and returns the empty set.\<close>

definition findMinEdgeCover :: "Graph \<Rightarrow> (error + Edge list) option" where
  "findMinEdgeCover g =
     (case hasIsolatedVertices g of
        Inl err \<Rightarrow> Some (Inl err)
      | Inr isolated \<Rightarrow>
          if isolated then Some (Inr [])
          else (case Graph_findMaxMatching g of
                  None \<Rightarrow> None
                | Some (Inl err) \<Rightarrow> Some (Inl err)
                | Some (Inr match) \<Rightarrow>
                    Some (case vector_bool (graph_V g) False of
                            Inl err \<Rightarrow> Inl err
                          | Inr covered0 \<Rightarrow>
                              (case for_each [0..graph_V g - 1] (add_matched_pair match)
                                      ([], covered0) of
                                 Inl err \<Rightarrow> Inl err
                               | Inr s1 \<Rightarrow>
                                   (case for_each [0..graph_V g - 1]
                                           (add_first_neighbour (graph_adj g)) s1 of
                                      Inl err \<Rightarrow> Inl err
                                    | Inr s2 \<Rightarrow> Inr (fst s2))))))"

section \<open>Notions of the specification\<close>

text \<open>Both endpoints of an edge are vertex indices of a graph on \<open>n\<close> vertices.\<close>

definition in_range :: "int \<Rightarrow> Edge \<Rightarrow> bool" where
  "in_range n e \<longleftrightarrow> 0 \<le> edge_u e \<and> edge_u e < n \<and> 0 \<le> edge_v e \<and> edge_v e < n"

text \<open>The vertex \<open>i\<close> is an endpoint of the edge.\<close>

definition touches :: "Edge \<Rightarrow> int \<Rightarrow> bool" where
  "touches e i \<longleftrightarrow> edge_u e = i \<or> edge_v e = i"

text \<open>No two elements of a sequence of edges are the same undirected edge.\<close>

fun distinct_edges :: "Edge list \<Rightarrow> bool" where
  "distinct_edges [] = True"
| "distinct_edges (e # es) = (\<not> list_ex (edge_eq e) es \<and> distinct_edges es)"

text \<open>Two edges have a vertex in common.\<close>

definition shares_vertex :: "Edge \<Rightarrow> Edge \<Rightarrow> bool" where
  "shares_vertex a b \<longleftrightarrow> touches a (edge_u b) \<or> touches a (edge_v b)"

text \<open>A matching of a graph (glossary of the specification): edges of the graph, no two of
  which share an endpoint.\<close>

fun is_matching :: "Edge list \<Rightarrow> Edge list \<Rightarrow> bool" where
  "is_matching edges [] = True"
| "is_matching edges (e # es) =
     (list_ex (edge_eq e) edges \<and> \<not> list_ex (shares_vertex e) es \<and> is_matching edges es)"

text \<open>The array \<open>match\<close> is a symmetric partial pairing of the vertices: an entry other
  than \<open>-1\<close> is a vertex whose own entry points back.\<close>

definition symmetric_match :: "int \<Rightarrow> int list \<Rightarrow> bool" where
  "symmetric_match n match \<longleftrightarrow>
     length match = nat n \<and>
     (\<forall>i<nat n. match ! i \<noteq> - 1 \<longrightarrow>
        0 \<le> match ! i \<and> match ! i < n \<and> match ! nat (match ! i) = int i)"

section \<open>Invariants\<close>

text \<open>What the constructor establishes: a positive vertex count, every edge between vertices of the
  graph, one adjacency row per vertex holding vertices of the graph only, and no vertex without an
  incident edge.\<close>

definition wf_graph :: "MinEdgeCover \<Rightarrow> bool" where
  "wf_graph G \<longleftrightarrow>
     0 < mec_n G \<and>
     (\<forall>e\<in>set (mec_edges G). in_range (mec_n G) e) \<and>
     length (mec_adj G) = nat (mec_n G) \<and>
     (\<forall>row\<in>set (mec_adj G). \<forall>x\<in>set row. 0 \<le> x \<and> x < mec_n G) \<and>
     (\<forall>i\<in>{0..<mec_n G}. \<exists>e\<in>set (mec_edges G). touches e i)"

text \<open>The adjacency rows hold exactly the neighbours along the edges read so far.\<close>

definition adj_of :: "int \<Rightarrow> Edge list \<Rightarrow> int list list \<Rightarrow> bool" where
  "adj_of n es adj \<longleftrightarrow> length adj = nat n \<and>
     (\<forall>j<nat n. set (adj ! j) =
        {x. \<exists>e\<in>set es. (edge_u e = int j \<and> edge_v e = x) \<or> (edge_v e = int j \<and> edge_u e = x)})"

text \<open>Invariant of the greedy loop: \<open>match\<close> holds \<open>-1\<close> or a vertex, \<open>used\<close> marks exactly
  the endpoints of \<open>matching\<close>, whose edges are distinct edges of the graph.\<close>

definition greedy_inv :: "int \<Rightarrow> Edge list \<Rightarrow> int list \<times> bool list \<times> Edge list \<Rightarrow> bool" where
  "greedy_inv n es s \<longleftrightarrow>
     (case s of (match, used, matching) \<Rightarrow>
        length match = nat n \<and> length used = nat n \<and>
        (\<forall>i<nat n. match ! i = - 1 \<or> (0 \<le> match ! i \<and> match ! i < n)) \<and>
        (\<forall>i<nat n. used ! i \<longleftrightarrow> (\<exists>e\<in>set matching. touches e (int i))) \<and>
        set matching \<subseteq> set es \<and> distinct_edges matching)"

text \<open>Invariant of the search: the arrays have one entry per vertex, the queue holds vertices,
  \<open>pathEnd\<close> is unset and every unmatched vertex is marked visited.\<close>

definition bfs_inv :: "int \<Rightarrow> int list \<Rightarrow> bfs_state \<Rightarrow> bool" where
  "bfs_inv n match st \<longleftrightarrow>
     length (visited st) = nat n \<and> length (parent st) = nat n \<and>
     (\<forall>x\<in>set (queue st). 0 \<le> x \<and> x < n) \<and> pathEnd st = - 1 \<and>
     (\<forall>i<nat n. match ! i = - 1 \<longrightarrow> visited st ! i)"

text \<open>The array \<open>match\<close> has one entry per vertex, each \<open>-1\<close> or a vertex.\<close>

definition match_ok :: "int \<Rightarrow> int list \<Rightarrow> bool" where
  "match_ok n match \<longleftrightarrow>
     length match = nat n \<and> (\<forall>i<nat n. match ! i = - 1 \<or> (0 \<le> match ! i \<and> match ! i < n))"

text \<open>Invariant of the completion loop of \<open>solve\<close>: \<open>covered\<close> marks exactly the endpoints
  of the edges of \<open>result\<close>, which are distinct edges of the graph.\<close>

definition cover_inv :: "int \<Rightarrow> Edge list \<Rightarrow> Edge list \<times> bool list \<Rightarrow> bool" where
  "cover_inv n es s \<longleftrightarrow>
     length (snd s) = nat n \<and> set (fst s) \<subseteq> set es \<and>
     (\<forall>i<nat n. snd s ! i \<longleftrightarrow> (\<exists>e\<in>set (fst s). touches e (int i))) \<and>
     distinct_edges (fst s)"

text \<open>Second invariant of the greedy loop: \<open>match\<close> is symmetric and \<open>used\<close> marks
  exactly the matched vertices.\<close>

definition sym_inv :: "int \<Rightarrow> int list \<times> bool list \<times> Edge list \<Rightarrow> bool" where
  "sym_inv n s \<longleftrightarrow>
     (case s of (match, used, matching) \<Rightarrow>
        symmetric_match n match \<and> length used = nat n \<and>
        (\<forall>i<nat n. used ! i \<longleftrightarrow> match ! i \<noteq> - 1))"

text \<open>What \<open>Graph(V)\<close> and \<open>addEdge\<close> establish in main.cpp: one adjacency row
  per vertex, holding vertices of the graph only.\<close>

definition graph_inv :: "int \<Rightarrow> Graph \<Rightarrow> bool" where
  "graph_inv V g \<longleftrightarrow> 0 \<le> V \<and> graph_V g = V \<and> length (graph_adj g) = nat V \<and>
     (\<forall>row\<in>set (graph_adj g). \<forall>x\<in>set row. 0 \<le> x \<and> x < V)"

section \<open>Loops and the cover verifier\<close>

lemma for_each_append:
  "for_each (xs @ ys) body s =
     (case for_each xs body s of Inl err \<Rightarrow> Inl err | Inr s' \<Rightarrow> for_each ys body s')"
  by (induction xs arbitrary: s) (auto split: sum.splits)

lemma for_each_invariant_aux:
  assumes step: "\<And>pre x post t. xs = pre @ x # post \<Longrightarrow> I pre t \<Longrightarrow>
                   \<exists>t'. body x t = Inr t' \<and> I (pre @ [x]) t'"
  shows "xs = pre @ rest \<Longrightarrow> I pre s \<Longrightarrow> \<exists>s'. for_each rest body s = Inr s' \<and> I xs s'"
proof (induction rest arbitrary: pre s)
  case Nil
  then show ?case by simp
next
  case (Cons x rest)
  from step [OF Cons.prems(1) Cons.prems(2)] obtain t'
    where t': "body x s = Inr t'" "I (pre @ [x]) t'" by blast
  from Cons.prems(1) have "xs = (pre @ [x]) @ rest" by simp
  from Cons.IH [OF this t'(2)] t'(1) show ?case by simp
qed

lemma for_each_invariant:
  assumes "I [] s"
    and "\<And>pre x post t. xs = pre @ x # post \<Longrightarrow> I pre t \<Longrightarrow>
           \<exists>t'. body x t = Inr t' \<and> I (pre @ [x]) t'"
  shows "\<exists>s'. for_each xs body s = Inr s' \<and> I xs s'"
  using for_each_invariant_aux [where I = I and pre = "[]" and rest = xs and xs = xs and body = body, OF assms(2)]
    assms(1) by simp

lemma mark_edge_ok:
  "in_range (int (length c)) e \<Longrightarrow>
   mark_edge e c = Inr (c[nat (edge_u e) := True, nat (edge_v e) := True])"
  by (simp add: mark_edge_def put_def in_bounds_def in_range_def)

lemma mark_edge_bad:
  "\<not> in_range (int (length c)) e \<Longrightarrow> mark_edge e c = Inl OutOfBounds"
  by (auto simp add: mark_edge_def put_def in_bounds_def in_range_def)

lemma nth_mark:
  "i < length c \<Longrightarrow> 0 \<le> a \<Longrightarrow> 0 \<le> b \<Longrightarrow>
   c[nat a := True, nat b := True] ! i \<longleftrightarrow> c ! i \<or> a = int i \<or> b = int i"
proof -
  assume i: "i < length c" and a: "0 \<le> a" and b: "0 \<le> b"
  from a b have "a = int i \<longleftrightarrow> nat a = i" "b = int i \<longleftrightarrow> nat b = i" by auto
  with i show ?thesis by (cases "nat b = i"; cases "nat a = i") simp_all
qed

lemma for_each_mark_edge_ok:
  "\<forall>e\<in>set es. in_range (int (length c)) e \<Longrightarrow>
   \<exists>c'. for_each es mark_edge c = Inr c' \<and> length c' = length c \<and>
        (\<forall>i<length c. c' ! i \<longleftrightarrow> c ! i \<or> (\<exists>e\<in>set es. touches e (int i)))"
proof (induction es arbitrary: c)
  case Nil
  then show ?case by simp
next
  case (Cons e es)
  let ?c1 = "c[nat (edge_u e) := True, nat (edge_v e) := True]"
  from Cons.prems have e: "in_range (int (length c)) e" by simp
  from Cons.prems have "\<forall>e\<in>set es. in_range (int (length ?c1)) e" by simp
  from Cons.IH [OF this] obtain c' where c': "for_each es mark_edge ?c1 = Inr c'"
    "length c' = length c" "\<forall>i<length c. c' ! i \<longleftrightarrow> ?c1 ! i \<or> (\<exists>e\<in>set es. touches e (int i))"
    by auto
  from e have nn: "0 \<le> edge_u e" "0 \<le> edge_v e" by (auto simp: in_range_def)
  have "\<forall>i<length c. c' ! i \<longleftrightarrow> c ! i \<or> (\<exists>e\<in>set (e # es). touches e (int i))"
    using c'(3) nth_mark [OF _ nn, of _ c] by (auto simp: touches_def)
  with c'(1,2) mark_edge_ok [OF e] show ?case by simp
qed

lemma for_each_mark_edge_bad:
  "\<exists>e\<in>set es. \<not> in_range (int (length c)) e \<Longrightarrow> for_each es mark_edge c = Inl OutOfBounds"
proof (induction es arbitrary: c)
  case Nil
  then show ?case by simp
next
  case (Cons e es)
  show ?case
  proof (cases "in_range (int (length c)) e")
    case True
    let ?c1 = "c[nat (edge_u e) := True, nat (edge_v e) := True]"
    from True Cons.prems have "\<exists>e\<in>set es. \<not> in_range (int (length ?c1)) e" by auto
    from Cons.IH [OF this] mark_edge_ok [OF True] show ?thesis by simp
  next
    case False
    then show ?thesis by (simp add: mark_edge_bad)
  qed
qed

lemma all_covered_ok:
  "\<forall>i\<in>set is. in_bounds c i \<Longrightarrow> all_covered c is = Inr (\<forall>i\<in>set is. c ! nat i)"
  by (induction "is") (auto simp: at_def)

lemma isEdgeCover_ok:
  assumes n: "0 \<le> n" and r: "\<forall>e\<in>set cover. in_range n e"
  shows "isEdgeCover n cover = Inr (\<forall>i\<in>{0..<n}. \<exists>e\<in>set cover. touches e i)"
proof -
  let ?c0 = "replicate (nat n) False"
  from n r have "\<forall>e\<in>set cover. in_range (int (length ?c0)) e" by simp
  from for_each_mark_edge_ok [OF this] obtain c' where c': "for_each cover mark_edge ?c0 = Inr c'"
    "length c' = nat n" "\<forall>i<nat n. c' ! i \<longleftrightarrow> (\<exists>e\<in>set cover. touches e (int i))"
    by auto
  have b: "\<forall>i\<in>set [0..n - 1]. in_bounds c' i" using c'(2) by (auto simp: in_bounds_def)
  have "(\<forall>i\<in>set [0..n - 1]. c' ! nat i) \<longleftrightarrow> (\<forall>i\<in>{0..<n}. \<exists>e\<in>set cover. touches e i)"
  proof
    assume a: "\<forall>i\<in>set [0..n - 1]. c' ! nat i"
    show "\<forall>i\<in>{0..<n}. \<exists>e\<in>set cover. touches e i"
    proof
      fix i assume i: "i \<in> {0..<n}"
      then have "c' ! nat i" using a by auto
      moreover from i have "nat i < nat n" by auto
      ultimately have "\<exists>e\<in>set cover. touches e (int (nat i))" using c'(3) by blast
      with i show "\<exists>e\<in>set cover. touches e i" by simp
    qed
  next
    assume a: "\<forall>i\<in>{0..<n}. \<exists>e\<in>set cover. touches e i"
    show "\<forall>i\<in>set [0..n - 1]. c' ! nat i"
    proof
      fix i assume i: "i \<in> set [0..n - 1]"
      then have "\<exists>e\<in>set cover. touches e i" using a by auto
      moreover from i have "nat i < nat n" "int (nat i) = i" by auto
      ultimately show "c' ! nat i" using c'(3) by auto
    qed
  qed
  with n c'(1) all_covered_ok [OF b] show ?thesis
    by (simp add: isEdgeCover_def vector_def vector_bool_def)
qed

lemma isEdgeCover_bad:
  assumes n: "0 \<le> n" and r: "\<exists>e\<in>set cover. \<not> in_range n e"
  shows "isEdgeCover n cover = Inl OutOfBounds"
proof -
  let ?c0 = "replicate (nat n) False"
  from n r have "\<exists>e\<in>set cover. \<not> in_range (int (length ?c0)) e" by simp
  from for_each_mark_edge_bad [OF this] n show ?thesis
    by (simp add: isEdgeCover_def vector_def vector_bool_def)
qed

lemma in_range_nonpositive: "n \<le> 0 \<Longrightarrow> \<not> in_range n e"
  by (auto simp: in_range_def)

lemma isEdgeCover_no_storage:
  assumes "- 64 < n" and "n < 0"
  shows "isEdgeCover n cover = (if cover = [] then Inr True else Inl OutOfBounds)"
proof (cases cover)
  case Nil
  with assms show ?thesis by (simp add: isEdgeCover_def vector_bool_def)
next
  case (Cons e es)
  have "\<exists>e\<in>set cover. \<not> in_range (int (length ([] :: bool list))) e"
    using Cons by (auto simp: in_range_nonpositive)
  from for_each_mark_edge_bad [OF this] assms Cons show ?thesis
    by (simp add: isEdgeCover_def vector_bool_def)
qed

lemma isEdgeCover_BadAlloc: "n \<le> - 64 \<Longrightarrow> isEdgeCover n cover = Inl BadAlloc"
  by (simp add: isEdgeCover_def vector_bool_def)

section \<open>The constructor of graph.hpp\<close>

lemma push_back_at_ok:
  "0 \<le> i \<Longrightarrow> i < int (length adj) \<Longrightarrow>
   push_back_at adj i x = Inr (adj[nat i := adj ! nat i @ [x]])"
  by (simp add: push_back_at_def at_def put_def in_bounds_def)

lemma add_edge_ok:
  assumes "in_range n e" and "length adj = nat n"
  shows "add_edge n e adj =
     Inr ((adj[nat (edge_u e) := adj ! nat (edge_u e) @ [edge_v e]])
            [nat (edge_v e) := (adj[nat (edge_u e) := adj ! nat (edge_u e) @ [edge_v e]]) ! nat (edge_v e) @ [edge_u e]])"
  using assms by (auto simp: add_edge_def in_range_def push_back_at_ok)

lemma add_edge_bad: "\<not> in_range n e \<Longrightarrow> add_edge n e adj = Inl InvalidArgument"
  by (auto simp: add_edge_def in_range_def)

lemma add_edge_rows:
  assumes r: "in_range n e" and l: "length adj = nat n"
  shows "\<exists>adj'. add_edge n e adj = Inr adj' \<and> length adj' = nat n \<and>
     (\<forall>j<nat n. set (adj' ! j) = set (adj ! j) \<union>
         (if edge_u e = int j then {edge_v e} else {}) \<union> (if edge_v e = int j then {edge_u e} else {}))"
proof -
  let ?a1 = "adj[nat (edge_u e) := adj ! nat (edge_u e) @ [edge_v e]]"
  let ?a2 = "?a1[nat (edge_v e) := ?a1 ! nat (edge_v e) @ [edge_u e]]"
  from r l have u: "nat (edge_u e) < length adj" and v: "nat (edge_v e) < length adj"
    and nn: "0 \<le> edge_u e" "0 \<le> edge_v e"
    by (auto simp: in_range_def)
  have "set (?a2 ! j) = set (adj ! j) \<union> (if edge_u e = int j then {edge_v e} else {})
                       \<union> (if edge_v e = int j then {edge_u e} else {})" if j: "j < nat n" for j
  proof -
    from nn have eq: "edge_u e = int j \<longleftrightarrow> nat (edge_u e) = j" "edge_v e = int j \<longleftrightarrow> nat (edge_v e) = j"
      by auto
    from j l u v show ?thesis unfolding eq
      by (cases "nat (edge_v e) = j"; cases "nat (edge_u e) = j") (auto simp: nth_list_update)
  qed
  with add_edge_ok [OF r l] l show ?thesis by simp
qed

lemma adj_of_step:
  assumes "adj_of n pre adj" and "in_range n e"
  shows "\<exists>adj'. add_edge n e adj = Inr adj' \<and> adj_of n (pre @ [e]) adj'"
proof -
  from assms(1) have l: "length adj = nat n" by (simp add: adj_of_def)
  from add_edge_rows [OF assms(2) l] obtain adj' where a: "add_edge n e adj = Inr adj'"
    "length adj' = nat n"
    "\<forall>j<nat n. set (adj' ! j) = set (adj ! j) \<union>
         (if edge_u e = int j then {edge_v e} else {}) \<union> (if edge_v e = int j then {edge_u e} else {})"
    by blast
  have "adj_of n (pre @ [e]) adj'"
    unfolding adj_of_def
  proof (intro conjI allI impI)
    show "length adj' = nat n" by (rule a(2))
  next
    fix j assume j: "j < nat n"
    from assms(1) j have "set (adj ! j) =
        {x. \<exists>e\<in>set pre. (edge_u e = int j \<and> edge_v e = x) \<or> (edge_v e = int j \<and> edge_u e = x)}"
      by (simp add: adj_of_def)
    with a(3) j show "set (adj' ! j) =
        {x. \<exists>e\<in>set (pre @ [e]). (edge_u e = int j \<and> edge_v e = x) \<or> (edge_v e = int j \<and> edge_u e = x)}"
      by auto
  qed
  with a(1) show ?thesis by blast
qed

lemma build_adj:
  assumes "0 \<le> n" and "\<forall>e\<in>set es. in_range n e"
  shows "\<exists>adj. for_each es (add_edge n) (replicate (nat n) []) = Inr adj \<and> adj_of n es adj"
proof (rule for_each_invariant [where I = "adj_of n"])
  show "adj_of n [] (replicate (nat n) [])" by (simp add: adj_of_def)
next
  fix pre x post t
  assume "es = pre @ x # post" and "adj_of n pre t"
  with assms(2) show "\<exists>t'. add_edge n x t = Inr t' \<and> adj_of n (pre @ [x]) t'"
    by (intro adj_of_step) auto
qed

lemma build_adj_bad:
  assumes "\<exists>e\<in>set es. \<not> in_range n e" and "length adj = nat n"
  shows "for_each es (add_edge n) adj = Inl InvalidArgument"
  using assms
proof (induction es arbitrary: adj)
  case Nil
  then show ?case by simp
next
  case (Cons e es)
  show ?case
  proof (cases "in_range n e")
    case True
    from add_edge_rows [OF True Cons.prems(2)] obtain adj' where
      a: "add_edge n e adj = Inr adj'" "length adj' = nat n" by blast
    from True Cons.prems(1) have "\<exists>e\<in>set es. \<not> in_range n e" by auto
    from Cons.IH [OF this a(2)] a(1) show ?thesis by simp
  next
    case False
    then show ?thesis by (simp add: add_edge_bad)
  qed
qed

lemma check_not_isolated_loop:
  "\<forall>i\<in>set is. in_bounds adj i \<Longrightarrow>
   for_each is (check_not_isolated adj) s =
     (if \<forall>i\<in>set is. adj ! nat i \<noteq> [] then Inr () else Inl InvalidArgument)"
  by (induction "is" arbitrary: s) (auto simp: check_not_isolated_def at_def)

lemma adj_of_nonempty:
  assumes "adj_of n es adj" and "0 \<le> i" and "i < n"
  shows "adj ! nat i \<noteq> [] \<longleftrightarrow> (\<exists>e\<in>set es. touches e i)"
proof -
  from assms have "set (adj ! nat i) =
     {x. \<exists>e\<in>set es. (edge_u e = i \<and> edge_v e = x) \<or> (edge_v e = i \<and> edge_u e = x)}"
    by (simp add: adj_of_def)
  moreover have "adj ! nat i \<noteq> [] \<longleftrightarrow> set (adj ! nat i) \<noteq> {}" by simp
  ultimately show ?thesis by (auto simp: touches_def)
qed

lemma adj_of_in_range:
  assumes a: "adj_of n es adj" and r: "\<forall>e\<in>set es. in_range n e"
  shows "\<forall>row\<in>set adj. \<forall>x\<in>set row. 0 \<le> x \<and> x < n"
proof (intro ballI)
  fix row x assume "row \<in> set adj" and x: "x \<in> set row"
  then obtain j where j: "j < length adj" "row = adj ! j" by (auto simp: in_set_conv_nth)
  with a x have "x \<in> {x. \<exists>e\<in>set es. (edge_u e = int j \<and> edge_v e = x) \<or> (edge_v e = int j \<and> edge_u e = x)}"
    by (simp add: adj_of_def)
  with r show "0 \<le> x \<and> x < n" by (auto simp: in_range_def)
qed

lemma new_MinEdgeCover_cases:
  assumes n: "0 \<le> n"
  shows "new_MinEdgeCover n es =
           (if 0 < n \<and> (\<forall>e\<in>set es. in_range n e) \<and> (\<forall>i\<in>{0..<n}. \<exists>e\<in>set es. touches e i)
            then (case for_each es (add_edge n) (replicate (nat n) []) of
                    Inl err \<Rightarrow> Inl err
                  | Inr adj \<Rightarrow> Inr \<lparr>mec_n = n, mec_edges = es, mec_adj = adj\<rparr>)
            else Inl InvalidArgument)"
proof (cases "0 < n")
  case False
  with n show ?thesis by (simp add: new_MinEdgeCover_def vector_def vector_bool_def)
next
  case pos: True
  show ?thesis
  proof (cases "\<forall>e\<in>set es. in_range n e")
    case False
    then have "for_each es (add_edge n) (replicate (nat n) []) = Inl InvalidArgument"
      by (intro build_adj_bad) auto
    with False pos show ?thesis by (simp add: new_MinEdgeCover_def vector_def vector_bool_def)
  next
    case True
    from build_adj [OF n True] obtain adj where
      adj: "for_each es (add_edge n) (replicate (nat n) []) = Inr adj" "adj_of n es adj" by blast
    from adj(2) have "\<forall>i\<in>set [0..n - 1]. in_bounds adj i"
      by (auto simp: adj_of_def in_bounds_def)
    from check_not_isolated_loop [OF this]
    have c: "for_each [0..n - 1] (check_not_isolated adj) () =
       (if \<forall>i\<in>set [0..n - 1]. adj ! nat i \<noteq> [] then Inr () else Inl InvalidArgument)" .
    have "(\<forall>i\<in>set [0..n - 1]. adj ! nat i \<noteq> []) \<longleftrightarrow> (\<forall>i\<in>{0..<n}. \<exists>e\<in>set es. touches e i)"
      using adj_of_nonempty [OF adj(2)] by auto
    with c adj(1) pos True show ?thesis
      by (simp add: new_MinEdgeCover_def vector_def vector_bool_def)
  qed
qed

lemma new_MinEdgeCover_wf:
  assumes "new_MinEdgeCover n es = Inr G"
  shows "wf_graph G \<and> mec_n G = n \<and> mec_edges G = es"
proof -
  from assms have n: "0 \<le> n"
    by (auto simp: new_MinEdgeCover_def vector_def vector_bool_def split: if_splits)
  from assms new_MinEdgeCover_cases [OF n, of es]
  have v: "0 < n" "\<forall>e\<in>set es. in_range n e" "\<forall>i\<in>{0..<n}. \<exists>e\<in>set es. touches e i"
    by (auto split: if_splits)
  from build_adj [OF n v(2)] obtain adj where
    adj: "for_each es (add_edge n) (replicate (nat n) []) = Inr adj" "adj_of n es adj" by blast
  with assms new_MinEdgeCover_cases [OF n, of es] v
  have G: "G = \<lparr>mec_n = n, mec_edges = es, mec_adj = adj\<rparr>" by simp
  from adj(2) have "length adj = nat n" by (simp add: adj_of_def)
  with G v adj_of_in_range [OF adj(2) v(2)] show ?thesis
    by (simp add: wf_graph_def)
qed

lemma new_MinEdgeCover_Inr_iff:
  "(\<exists>G. new_MinEdgeCover n es = Inr G) \<longleftrightarrow>
     0 < n \<and> (\<forall>e\<in>set es. in_range n e) \<and> (\<forall>i\<in>{0..<n}. \<exists>e\<in>set es. touches e i)"
proof
  assume "\<exists>G. new_MinEdgeCover n es = Inr G"
  then obtain G where G: "new_MinEdgeCover n es = Inr G" by blast
  from new_MinEdgeCover_wf [OF G] show
    "0 < n \<and> (\<forall>e\<in>set es. in_range n e) \<and> (\<forall>i\<in>{0..<n}. \<exists>e\<in>set es. touches e i)"
    by (auto simp: wf_graph_def)
next
  assume v: "0 < n \<and> (\<forall>e\<in>set es. in_range n e) \<and> (\<forall>i\<in>{0..<n}. \<exists>e\<in>set es. touches e i)"
  then have n: "0 \<le> n" by simp
  from build_adj [OF n] v obtain adj where
    "for_each es (add_edge n) (replicate (nat n) []) = Inr adj" by blast
  with new_MinEdgeCover_cases [OF n, of es] v show "\<exists>G. new_MinEdgeCover n es = Inr G"
    by simp
qed

lemma new_MinEdgeCover_InvalidArgument_iff:
  assumes "0 \<le> n"
  shows "new_MinEdgeCover n es = Inl InvalidArgument \<longleftrightarrow>
     n = 0 \<or> (\<exists>e\<in>set es. \<not> in_range n e) \<or> (\<exists>i\<in>{0..<n}. \<forall>e\<in>set es. \<not> touches e i)"
proof (cases "0 < n \<and> (\<forall>e\<in>set es. in_range n e) \<and> (\<forall>i\<in>{0..<n}. \<exists>e\<in>set es. touches e i)")
  case True
  with new_MinEdgeCover_Inr_iff [of n es] obtain G where "new_MinEdgeCover n es = Inr G" by blast
  with True show ?thesis by auto
next
  case False
  with new_MinEdgeCover_cases [OF assms, of es] have "new_MinEdgeCover n es = Inl InvalidArgument"
    by simp
  with False assms show ?thesis by auto
qed

lemma new_MinEdgeCover_LengthError: "n < 0 \<Longrightarrow> new_MinEdgeCover n es = Inl LengthError"
  by (simp add: new_MinEdgeCover_def vector_def vector_bool_def)

section \<open>The matching engine and the cover of graph.hpp\<close>

lemma edge_eq_sym: "edge_eq a b \<longleftrightarrow> edge_eq b a"
  by (auto simp: edge_eq_def)

lemma edge_eq_touches: "edge_eq a b \<Longrightarrow> touches a i \<longleftrightarrow> touches b i"
  by (auto simp: edge_eq_def touches_def)

lemma distinct_edges_snoc:
  "distinct_edges (es @ [e]) \<longleftrightarrow> distinct_edges es \<and> \<not> (\<exists>f\<in>set es. edge_eq f e)"
  by (induction es) (auto simp: list_ex_iff edge_eq_sym)

lemma distinct_edges_nth:
  "distinct_edges es \<Longrightarrow> i < j \<Longrightarrow> j < length es \<Longrightarrow> \<not> edge_eq (es ! i) (es ! j)"
proof (induction es arbitrary: i j)
  case Nil
  then show ?case by simp
next
  case (Cons e es)
  from Cons.prems(2) obtain j' where j: "j = Suc j'" by (cases j) auto
  with Cons.prems(3) have j': "j' < length es" by simp
  show ?case
  proof (cases i)
    case 0
    from Cons.prems(1) j' have "\<not> edge_eq e (es ! j')" by (auto simp: list_ex_iff)
    with 0 j show ?thesis by simp
  next
    case (Suc i')
    with Cons.prems j have "i' < j'" by simp
    from Cons.IH [OF _ this j'] Cons.prems(1) Suc j show ?thesis by simp
  qed
qed

lemma greedy_step_inv:
  assumes inv: "greedy_inv n es s" and e: "e \<in> set es" and r: "in_range n e"
  shows "\<exists>s'. greedy_step e s = Inr s' \<and> greedy_inv n es s'"
proof -
  obtain match used matching where s: "s = (match, used, matching)" by (cases s) auto
  from inv s have l: "length match = nat n" "length used = nat n"
    and mr: "\<forall>i<nat n. match ! i = - 1 \<or> (0 \<le> match ! i \<and> match ! i < n)"
    and ut: "\<forall>i<nat n. used ! i \<longleftrightarrow> (\<exists>e\<in>set matching. touches e (int i))"
    and sub: "set matching \<subseteq> set es" and d: "distinct_edges matching"
    by (auto simp: greedy_inv_def)
  from r have nn: "0 \<le> edge_u e" "0 \<le> edge_v e" and lt: "nat (edge_u e) < nat n" "nat (edge_v e) < nat n"
    by (auto simp: in_range_def)
  from r l have b: "in_bounds used (edge_u e)" "in_bounds used (edge_v e)"
    "in_bounds match (edge_u e)" "in_bounds match (edge_v e)"
    by (auto simp: in_range_def in_bounds_def)
  show ?thesis
  proof (cases "used ! nat (edge_u e) \<or> used ! nat (edge_v e)")
    case True
    with b s have "greedy_step e s = Inr s" by (auto simp: greedy_step_def at_def)
    with inv show ?thesis by simp
  next
    case False
    let ?m = "match[nat (edge_u e) := edge_v e, nat (edge_v e) := edge_u e]"
    let ?u = "used[nat (edge_v e) := True, nat (edge_u e) := True]"
    from False b s have step: "greedy_step e s = Inr (?m, ?u, matching @ [e])"
      by (simp add: greedy_step_def at_def put_def in_bounds_def)
    have m': "\<forall>i<nat n. ?m ! i = - 1 \<or> (0 \<le> ?m ! i \<and> ?m ! i < n)"
    proof (intro allI impI)
      fix i assume i: "i < nat n"
      with mr l r show "?m ! i = - 1 \<or> (0 \<le> ?m ! i \<and> ?m ! i < n)"
        by (cases "nat (edge_v e) = i"; cases "nat (edge_u e) = i") (auto simp: in_range_def)
    qed
    have u': "\<forall>i<nat n. ?u ! i \<longleftrightarrow> (\<exists>f\<in>set (matching @ [e]). touches f (int i))"
    proof (intro allI impI)
      fix i assume i: "i < nat n"
      from nn have eq: "edge_u e = int i \<longleftrightarrow> nat (edge_u e) = i" "edge_v e = int i \<longleftrightarrow> nat (edge_v e) = i"
        by auto
      from i l ut show "?u ! i \<longleftrightarrow> (\<exists>f\<in>set (matching @ [e]). touches f (int i))"
        unfolding touches_def
        by (cases "nat (edge_v e) = i"; cases "nat (edge_u e) = i") (auto simp: eq)
    qed
    have fresh: "\<not> (\<exists>f\<in>set matching. edge_eq f e)"
    proof
      assume "\<exists>f\<in>set matching. edge_eq f e"
      then obtain f where f: "f \<in> set matching" "edge_eq f e" by blast
      have "touches e (edge_u e)" by (simp add: touches_def)
      with f(2) have "touches f (int (nat (edge_u e)))" using nn by (simp add: edge_eq_touches)
      with f(1) ut lt have "used ! nat (edge_u e)" by blast
      with False show False by simp
    qed
    from l m' u' sub e d fresh have "greedy_inv n es (?m, ?u, matching @ [e])"
      by (simp add: greedy_inv_def distinct_edges_snoc)
    with step show ?thesis by blast
  qed
qed

lemma greedy_ok:
  assumes n: "0 \<le> n" and r: "\<forall>e\<in>set es. in_range n e"
  shows "\<exists>s. greedy n es = Inr s \<and> greedy_inv n es s"
proof -
  let ?s0 = "(replicate (nat n) (- 1 :: int), replicate (nat n) False, [] :: Edge list)"
  have "\<exists>s. for_each es greedy_step ?s0 = Inr s \<and> greedy_inv n es s"
  proof (rule for_each_invariant [where I = "\<lambda>pre. greedy_inv n es"])
    show "greedy_inv n es ?s0" by (simp add: greedy_inv_def)
  next
    fix pre x post t
    assume "es = pre @ x # post" and "greedy_inv n es t"
    with r show "\<exists>t'. greedy_step x t = Inr t' \<and> greedy_inv n es t'"
      by (intro greedy_step_inv) auto
  qed
  with n show ?thesis by (simp add: greedy_def vector_def vector_bool_def)
qed

lemma nth_set_True: "bs ! i \<Longrightarrow> i < length bs \<Longrightarrow> bs[j := True] ! i"
  by (cases "i = j") auto

lemma enqueue_all:
  assumes m: "match_ok n match" and n: "0 \<le> n"
  shows "\<exists>st. for_each [0..n - 1] (enqueue_unmatched match)
            \<lparr>queue = [], visited = replicate (nat n) False, parent = replicate (nat n) (- 1),
             pathEnd = - 1\<rparr> = Inr st \<and> bfs_inv n match st"
proof -
  let ?I = "\<lambda>pre (st::bfs_state). length (visited st) = nat n \<and> length (parent st) = nat n \<and>
     (\<forall>x\<in>set (queue st). 0 \<le> x \<and> x < n) \<and> pathEnd st = - 1 \<and>
     (\<forall>i\<in>set pre. match ! nat i = - 1 \<longrightarrow> visited st ! nat i)"
  let ?st0 = "\<lparr>queue = [], visited = replicate (nat n) False, parent = replicate (nat n) (- 1),
             pathEnd = - 1\<rparr>"
  have "\<exists>st. for_each [0..n - 1] (enqueue_unmatched match) ?st0 = Inr st \<and> ?I [0..n - 1] st"
  proof (rule for_each_invariant [where I = ?I])
    show "?I [] ?st0" by simp
  next
    fix pre x post t
    assume xs: "[0..n - 1] = pre @ x # post" and I: "?I pre t"
    have "x \<in> set [0..n - 1]" unfolding xs by simp
    then have x: "0 \<le> x" "x < n" by auto
    with m I have b: "in_bounds match x" "in_bounds (visited t) x"
      by (auto simp: in_bounds_def match_ok_def)
    show "\<exists>t'. enqueue_unmatched match x t = Inr t' \<and> ?I (pre @ [x]) t'"
    proof (cases "match ! nat x = - 1")
      case False
      with b I show ?thesis by (simp add: enqueue_unmatched_def at_def)
    next
      case True
      with b have "enqueue_unmatched match x t =
          Inr (t\<lparr>queue := queue t @ [x], visited := (visited t)[nat x := True]\<rparr>)"
        by (simp add: enqueue_unmatched_def at_def put_def)
      moreover have "?I (pre @ [x]) (t\<lparr>queue := queue t @ [x], visited := (visited t)[nat x := True]\<rparr>)"
        using I x b by (auto simp: nth_list_update in_bounds_def)
      ultimately show ?thesis by blast
    qed
  qed
  then obtain st where st: "for_each [0..n - 1] (enqueue_unmatched match) ?st0 = Inr st"
    "?I [0..n - 1] st" by blast
  have "\<forall>i<nat n. match ! i = - 1 \<longrightarrow> visited st ! i"
  proof (intro allI impI)
    fix i assume i: "i < nat n" and mi: "match ! i = - 1"
    from i have "int i \<in> set [0..n - 1]" by auto
    with st(2) mi show "visited st ! i" by fastforce
  qed
  with st show ?thesis by (auto simp: bfs_inv_def)
qed

lemma scan_inv:
  assumes m: "match_ok n match"
  shows "bfs_inv n match st \<Longrightarrow> \<forall>v\<in>set vs. 0 \<le> v \<and> v < n \<Longrightarrow>
         \<exists>st'. scan match u vs st = Inr st' \<and> bfs_inv n match st'"
proof (induction vs arbitrary: st)
  case Nil
  then show ?case by simp
next
  case (Cons v vs)
  from Cons.prems have v: "0 \<le> v" "v < n" and vs: "\<forall>v\<in>set vs. 0 \<le> v \<and> v < n" by auto
  from Cons.prems(1) have l: "length (visited st) = nat n" "length (parent st) = nat n"
    and q: "\<forall>x\<in>set (queue st). 0 \<le> x \<and> x < n" and pe: "pathEnd st = - 1"
    and um: "\<forall>i<nat n. match ! i = - 1 \<longrightarrow> visited st ! i"
    by (auto simp: bfs_inv_def)
  from v l m have b: "in_bounds (visited st) v" "in_bounds (parent st) v" "in_bounds match v"
    by (auto simp: in_bounds_def match_ok_def)
  show ?case
  proof (cases "visited st ! nat v")
    case True
    with b Cons.IH [OF Cons.prems(1) vs] show ?thesis by (simp add: at_def)
  next
    case False
    from v have nv: "nat v < nat n" by simp
    with um False have ne: "match ! nat v \<noteq> - 1" by blast
    from m nv have "match ! nat v = - 1 \<or> (0 \<le> match ! nat v \<and> match ! nat v < n)"
      by (simp add: match_ok_def)
    with ne have mv: "0 \<le> match ! nat v" "match ! nat v < n" by auto
    let ?mv = "match ! nat v"
    let ?st1 = "st\<lparr>queue := queue st @ [?mv],
                   visited := (visited st)[nat v := True, nat ?mv := True],
                   parent := (parent st)[nat v := u, nat ?mv := v]\<rparr>"
    from False b ne mv l have step: "scan match u (v # vs) st = scan match u vs ?st1"
      by (simp add: at_def put_def in_bounds_def)
    have "\<forall>i<nat n. match ! i = - 1 \<longrightarrow> (visited st)[nat v := True, nat ?mv := True] ! i"
      using um l by (simp add: nth_set_True)
    with l q pe mv have "bfs_inv n match ?st1"
      by (simp add: bfs_inv_def)
    from Cons.IH [OF this vs] step show ?thesis by simp
  qed
qed

lemma bfs_inv_result:
  "match_ok n match \<Longrightarrow> length adj = nat n \<Longrightarrow>
   \<forall>row\<in>set adj. \<forall>x\<in>set row. 0 \<le> x \<and> x < n \<Longrightarrow> bfs_inv n match st \<Longrightarrow>
   \<exists>st'. bfs adj match st = Inr st' \<and> pathEnd st' = - 1"
proof (induction adj match st rule: bfs.induct)
  case (1 adj match st)
  note m = "1.prems"(1) and la = "1.prems"(2) and ra = "1.prems"(3) and inv = "1.prems"(4)
  show ?case
  proof (cases "queue st \<noteq> [] \<and> pathEnd st = - 1")
    case False
    with inv show ?thesis by (subst bfs.simps) (simp add: bfs_inv_def)
  next
    case True
    then have "hd (queue st) \<in> set (queue st)" by simp
    with inv have h: "0 \<le> hd (queue st)" "hd (queue st) < n" by (auto simp: bfs_inv_def)
    from h have "0 \<le> n" by linarith
    with h la have "in_bounds adj (hd (queue st))" by (simp add: in_bounds_def)
    then have at: "at adj (hd (queue st)) = Inr (adj ! nat (hd (queue st)))"
      by (simp add: at_def)
    from h la have "adj ! nat (hd (queue st)) \<in> set adj" by simp
    with ra have vs: "\<forall>v\<in>set (adj ! nat (hd (queue st))). 0 \<le> v \<and> v < n" by blast
    from True have "set (tl (queue st)) \<subseteq> set (queue st)"
      by (cases "queue st") auto
    with inv have "bfs_inv n match (st\<lparr>queue := tl (queue st)\<rparr>)"
      by (auto simp: bfs_inv_def)
    from scan_inv [OF m this vs] obtain st' where
      st': "scan match (hd (queue st)) (adj ! nat (hd (queue st))) (st\<lparr>queue := tl (queue st)\<rparr>) = Inr st'"
      "bfs_inv n match st'" by blast
    from "1.IH" [OF True at st'(1) m la ra st'(2)] obtain st'' where
      "bfs adj match st' = Inr st''" "pathEnd st'' = - 1" by blast
    with True at st'(1) show ?thesis by (subst bfs.simps) simp
  qed
qed

lemma search_ok:
  assumes m: "match_ok n match" and n: "0 \<le> n" and la: "length adj = nat n"
    and ra: "\<forall>row\<in>set adj. \<forall>x\<in>set row. 0 \<le> x \<and> x < n"
  shows "\<exists>st. search n adj match = Inr st \<and> pathEnd st = - 1"
proof -
  from enqueue_all [OF m n] obtain st0 where
    st0: "for_each [0..n - 1] (enqueue_unmatched match)
            \<lparr>queue = [], visited = replicate (nat n) False, parent = replicate (nat n) (- 1),
             pathEnd = - 1\<rparr> = Inr st0" "bfs_inv n match st0" by blast
  from bfs_inv_result [OF m la ra st0(2)] obtain st where "bfs adj match st0 = Inr st" "pathEnd st = - 1"
    by blast
  with st0(1) n show ?thesis by (simp add: search_def vector_def vector_bool_def)
qed

lemma improve_ok:
  assumes "match_ok n match" and "0 \<le> n" and "length adj = nat n"
    and "\<forall>row\<in>set adj. \<forall>x\<in>set row. 0 \<le> x \<and> x < n"
  shows "improve n adj match matching = Some (Inr (match, matching))"
proof -
  from search_ok [OF assms] obtain st where "search n adj match = Inr st" "pathEnd st = - 1"
    by blast
  then show ?thesis by (subst improve.simps) simp
qed

lemma findMaxMatching_state_ok:
  assumes "wf_graph G"
  shows "\<exists>match used matching. greedy (mec_n G) (mec_edges G) = Inr (match, used, matching) \<and>
           greedy_inv (mec_n G) (mec_edges G) (match, used, matching) \<and>
           findMaxMatching_state G = Some (Inr (match, matching))"
proof -
  from assms have n: "0 \<le> mec_n G" and r: "\<forall>e\<in>set (mec_edges G). in_range (mec_n G) e"
    and la: "length (mec_adj G) = nat (mec_n G)"
    and ra: "\<forall>row\<in>set (mec_adj G). \<forall>x\<in>set row. 0 \<le> x \<and> x < mec_n G"
    by (auto simp: wf_graph_def)
  from greedy_ok [OF n r] obtain match used matching where
    g: "greedy (mec_n G) (mec_edges G) = Inr (match, used, matching)"
       "greedy_inv (mec_n G) (mec_edges G) (match, used, matching)"
    by (metis prod_cases3)
  from g(2) have "match_ok (mec_n G) match" by (simp add: greedy_inv_def match_ok_def)
  from improve_ok [OF this n la ra]
  have "improve (mec_n G) (mec_adj G) match matching = Some (Inr (match, matching))" .
  with g show ?thesis by (simp add: findMaxMatching_state_def)
qed

lemma first_incident_found:
  assumes "\<exists>e\<in>set es. touches e i" and "\<forall>e\<in>set es. in_range n e"
    and "length (snd s) = nat n" and "0 \<le> i" and "i < n"
  shows "\<exists>e\<in>set es. touches e i \<and>
           first_incident i es s =
             Inr (fst s @ [e], (snd s)[nat i := True, nat (edge_u e) := True, nat (edge_v e) := True])"
  using assms(1,2)
proof (induction es)
  case Nil
  then show ?case by simp
next
  case (Cons e es)
  show ?case
  proof (cases "touches e i")
    case True
    from Cons.prems(2) have "in_range n e" by simp
    with assms(3-5) have "in_bounds (snd s) i"
      and "in_range (int (length ((snd s)[nat i := True]))) e"
      by (auto simp: in_bounds_def)
    with True have "first_incident i (e # es) s =
        Inr (fst s @ [e], (snd s)[nat i := True, nat (edge_u e) := True, nat (edge_v e) := True])"
      by (simp add: touches_def put_def mark_edge_ok)
    with True show ?thesis by auto
  next
    case False
    with Cons.prems have "\<exists>e\<in>set es. touches e i" "\<forall>e\<in>set es. in_range n e" by auto
    from Cons.IH [OF this] False show ?thesis by (auto simp: touches_def)
  qed
qed

lemma cover_vertex_inv:
  assumes inv: "cover_inv n es s" and r: "\<forall>e\<in>set es. in_range n e"
    and t: "\<exists>e\<in>set es. touches e i" and i: "0 \<le> i" "i < n"
  shows "\<exists>s'. cover_vertex es i s = Inr s' \<and> cover_inv n es s' \<and> snd s' ! nat i \<and>
           (\<forall>j<nat n. snd s ! j \<longrightarrow> snd s' ! j)"
proof -
  from inv have l: "length (snd s) = nat n" and sub: "set (fst s) \<subseteq> set es"
    and ct: "\<forall>j<nat n. snd s ! j \<longleftrightarrow> (\<exists>e\<in>set (fst s). touches e (int j))"
    and d: "distinct_edges (fst s)"
    by (auto simp: cover_inv_def)
  from l i have b: "in_bounds (snd s) i" by (simp add: in_bounds_def)
  from i have ni: "nat i < nat n" "int (nat i) = i" by auto
  show ?thesis
  proof (cases "snd s ! nat i")
    case True
    with b have "cover_vertex es i s = Inr s" by (simp add: cover_vertex_def at_def)
    with inv True show ?thesis by simp
  next
    case False
    from first_incident_found [OF t r l i] obtain e where e: "e \<in> set es" "touches e i"
      "first_incident i es s =
         Inr (fst s @ [e], (snd s)[nat i := True, nat (edge_u e) := True, nat (edge_v e) := True])"
      by blast
    let ?c = "(snd s)[nat i := True, nat (edge_u e) := True, nat (edge_v e) := True]"
    from e(1) r have re: "in_range n e" by blast
    then have nn: "0 \<le> edge_u e" "0 \<le> edge_v e" by (auto simp: in_range_def)
    from False b e(3) have step: "cover_vertex es i s = Inr (fst s @ [e], ?c)"
      by (simp add: cover_vertex_def at_def)
    have c': "\<forall>j<nat n. ?c ! j \<longleftrightarrow> (\<exists>f\<in>set (fst s @ [e]). touches f (int j))"
    proof (intro allI impI)
      fix j assume j: "j < nat n"
      with l have "j < length ((snd s)[nat i := True])" by simp
      from nth_mark [OF this nn]
      have "?c ! j \<longleftrightarrow> (snd s)[nat i := True] ! j \<or> edge_u e = int j \<or> edge_v e = int j" .
      also have "(snd s)[nat i := True] ! j \<longleftrightarrow> snd s ! j \<or> nat i = j"
        using j l by (cases "nat i = j") auto
      finally have "?c ! j \<longleftrightarrow> snd s ! j \<or> nat i = j \<or> touches e (int j)"
        by (auto simp: touches_def)
      moreover from e(2) ni have "nat i = j \<Longrightarrow> touches e (int j)" by auto
      ultimately show "?c ! j \<longleftrightarrow> (\<exists>f\<in>set (fst s @ [e]). touches f (int j))"
        using ct j by auto
    qed
    have fresh: "\<not> (\<exists>f\<in>set (fst s). edge_eq f e)"
    proof
      assume "\<exists>f\<in>set (fst s). edge_eq f e"
      then obtain f where f: "f \<in> set (fst s)" "edge_eq f e" by blast
      with e(2) ni have "touches f (int (nat i))" by (simp add: edge_eq_touches)
      with f(1) ct ni(1) have "snd s ! nat i" by blast
      with False show False by simp
    qed
    from l c' sub e(1) d fresh have "cover_inv n es (fst s @ [e], ?c)"
      by (simp add: cover_inv_def distinct_edges_snoc)
    moreover from e(2) ni c' have "?c ! nat i" by auto
    moreover have "\<forall>j<nat n. snd s ! j \<longrightarrow> ?c ! j"
      using l by (simp add: nth_set_True)
    ultimately show ?thesis using step by simp
  qed
qed

lemma complete_cover_ok:
  assumes wf: "wf_graph G" and sub: "set matching \<subseteq> set (mec_edges G)"
    and d: "distinct_edges matching"
  shows "\<exists>cover. complete_cover G matching = Inr cover \<and> set cover \<subseteq> set (mec_edges G) \<and>
           (\<forall>i\<in>{0..<mec_n G}. \<exists>e\<in>set cover. touches e i) \<and> distinct_edges cover"
proof -
  let ?n = "mec_n G" and ?es = "mec_edges G"
  from wf have n: "0 < ?n" and r: "\<forall>e\<in>set ?es. in_range ?n e"
    and t: "\<forall>i\<in>{0..<?n}. \<exists>e\<in>set ?es. touches e i"
    by (auto simp: wf_graph_def)
  from r sub n have "\<forall>e\<in>set matching. in_range (int (length (replicate (nat ?n) False))) e"
    by auto
  from for_each_mark_edge_ok [OF this] obtain covered where
    c: "for_each matching mark_edge (replicate (nat ?n) False) = Inr covered"
       "length covered = nat ?n"
       "\<forall>i<nat ?n. covered ! i \<longleftrightarrow> (\<exists>e\<in>set matching. touches e (int i))"
    by auto
  let ?I = "\<lambda>pre s. cover_inv ?n ?es s \<and> (\<forall>i\<in>set pre. snd s ! nat i)"
  have "\<exists>s. for_each [0..?n - 1] (cover_vertex ?es) (matching, covered) = Inr s \<and> ?I [0..?n - 1] s"
  proof (rule for_each_invariant [where I = ?I])
    from c sub d show "?I [] (matching, covered)" by (simp add: cover_inv_def)
  next
    fix pre x post s
    assume xs: "[0..?n - 1] = pre @ x # post" and I: "?I pre s"
    have mem: "set pre \<union> {x} \<subseteq> set [0..?n - 1]" unfolding xs by auto
    then have x: "0 \<le> x" "x < ?n" by auto
    with t have tx: "\<exists>e\<in>set ?es. touches e x" by simp
    from I have inv: "cover_inv ?n ?es s" by simp
    from cover_vertex_inv [OF inv r tx x] obtain s' where
      s': "cover_vertex ?es x s = Inr s'" "cover_inv ?n ?es s'" "snd s' ! nat x"
          "\<forall>j<nat ?n. snd s ! j \<longrightarrow> snd s' ! j" by blast
    have "\<forall>i\<in>set pre. snd s' ! nat i"
    proof
      fix i assume i: "i \<in> set pre"
      with mem have "nat i < nat ?n" by auto
      with s'(4) I i show "snd s' ! nat i" by blast
    qed
    with s' show "\<exists>s'. cover_vertex ?es x s = Inr s' \<and> ?I (pre @ [x]) s'" by auto
  qed
  then obtain s where s: "for_each [0..?n - 1] (cover_vertex ?es) (matching, covered) = Inr s"
    "cover_inv ?n ?es s" "\<forall>i\<in>set [0..?n - 1]. snd s ! nat i" by blast
  have "\<forall>i\<in>{0..<?n}. \<exists>e\<in>set (fst s). touches e i"
  proof
    fix i assume i: "i \<in> {0..<?n}"
    then have "snd s ! nat i" "nat i < nat ?n" "int (nat i) = i" using s(3) by auto
    with s(2) show "\<exists>e\<in>set (fst s). touches e i" by (auto simp: cover_inv_def)
  qed
  with s(1,2) c(1) n show ?thesis
    by (simp add: complete_cover_def vector_def vector_bool_def cover_inv_def)
qed

lemma solve_ok:
  assumes wf: "wf_graph G"
  shows "\<exists>cover. solve G = Some (Inr cover) \<and> set cover \<subseteq> set (mec_edges G) \<and>
           (\<forall>i\<in>{0..<mec_n G}. \<exists>e\<in>set cover. touches e i) \<and> distinct_edges cover"
proof -
  from findMaxMatching_state_ok [OF wf] obtain match used matching where
    g: "greedy_inv (mec_n G) (mec_edges G) (match, used, matching)"
       "findMaxMatching_state G = Some (Inr (match, matching))" by blast
  from g(1) have m: "set matching \<subseteq> set (mec_edges G)" "distinct_edges matching"
    by (auto simp: greedy_inv_def)
  from g(2) have f: "findMaxMatching G = Some (Inr matching)"
    by (simp add: findMaxMatching_def)
  from complete_cover_ok [OF wf m] f show ?thesis by (simp add: solve_def)
qed

lemma greedy_step_sym:
  assumes inv: "sym_inv n s" and r: "in_range n e" and step: "greedy_step e s = Inr s'"
  shows "sym_inv n s'"
proof -
  obtain match used matching where s: "s = (match, used, matching)" by (cases s) auto
  from inv s have l: "length match = nat n" "length used = nat n"
    and sym: "\<forall>i<nat n. match ! i \<noteq> - 1 \<longrightarrow>
        0 \<le> match ! i \<and> match ! i < n \<and> match ! nat (match ! i) = int i"
    and um: "\<forall>i<nat n. used ! i \<longleftrightarrow> match ! i \<noteq> - 1"
    by (auto simp: sym_inv_def symmetric_match_def)
  let ?u = "edge_u e" and ?v = "edge_v e"
  from r have nn: "0 \<le> ?u" "0 \<le> ?v" and lt: "nat ?u < nat n" "nat ?v < nat n"
    and ltn: "?u < n" "?v < n"
    by (auto simp: in_range_def)
  from r l have b: "in_bounds used ?u" "in_bounds used ?v" "in_bounds match ?u" "in_bounds match ?v"
    by (auto simp: in_range_def in_bounds_def)
  show ?thesis
  proof (cases "used ! nat ?u \<or> used ! nat ?v")
    case True
    with b s have "greedy_step e s = Inr s" by (auto simp: greedy_step_def at_def)
    with step inv show ?thesis by simp
  next
    case False
    let ?m = "match[nat ?u := ?v, nat ?v := ?u]"
    let ?us = "used[nat ?v := True, nat ?u := True]"
    from False b s step have s': "s' = (?m, ?us, matching @ [e])"
      by (simp add: greedy_step_def at_def put_def in_bounds_def)
    from False um lt have free: "match ! nat ?u = - 1" "match ! nat ?v = - 1" by auto
    have mu: "?m ! nat ?v = ?u" using l lt by simp
    have mv: "?m ! nat ?u = (if nat ?u = nat ?v then ?u else ?v)" using l lt by simp
    have other: "?m ! i = match ! i" if "i \<noteq> nat ?u" "i \<noteq> nat ?v" for i
      using that by simp
    have sym': "\<forall>i<nat n. ?m ! i \<noteq> - 1 \<longrightarrow> 0 \<le> ?m ! i \<and> ?m ! i < n \<and> ?m ! nat (?m ! i) = int i"
    proof (intro allI impI)
      fix i assume i: "i < nat n" and ne: "?m ! i \<noteq> - 1"
      show "0 \<le> ?m ! i \<and> ?m ! i < n \<and> ?m ! nat (?m ! i) = int i"
      proof (cases "i = nat ?v")
        case True
        with mu mv nn ltn show ?thesis by auto
      next
        case nv: False
        show ?thesis
        proof (cases "i = nat ?u")
          case True
          with nv mu mv nn ltn show ?thesis by auto
        next
          case nu: False
          from other [OF nu nv] ne have mi: "?m ! i = match ! i" "match ! i \<noteq> - 1" by auto
          with sym i have w: "0 \<le> match ! i" "match ! i < n" "match ! nat (match ! i) = int i"
            by auto
          from w(3) free have "nat (match ! i) \<noteq> nat ?u" "nat (match ! i) \<noteq> nat ?v" by auto
          from other [OF this] mi w show ?thesis by simp
        qed
      qed
    qed
    have um': "\<forall>i<nat n. ?us ! i \<longleftrightarrow> ?m ! i \<noteq> - 1"
    proof (intro allI impI)
      fix i assume i: "i < nat n"
      show "?us ! i \<longleftrightarrow> ?m ! i \<noteq> - 1"
      proof (cases "i = nat ?v \<or> i = nat ?u")
        case True
        have "?us ! nat ?v" using l lt by (cases "nat ?u = nat ?v") simp_all
        moreover have "?us ! nat ?u" using l lt by simp
        moreover from mu nn have "?m ! nat ?v \<noteq> - 1" by simp
        moreover from mv nn have "?m ! nat ?u \<noteq> - 1" by (simp split: if_splits)
        ultimately show ?thesis using True by blast
      next
        case False
        with um i show ?thesis by simp
      qed
    qed
    from s' l sym' um' show ?thesis by (simp add: sym_inv_def symmetric_match_def)
  qed
qed

lemma greedy_symmetric:
  assumes n: "0 \<le> n" and r: "\<forall>e\<in>set es. in_range n e"
    and g: "greedy n es = Inr (match, used, matching)"
  shows "symmetric_match n match"
proof -
  let ?s0 = "(replicate (nat n) (- 1 :: int), replicate (nat n) False, [] :: Edge list)"
  from g n have f: "for_each es greedy_step ?s0 = Inr (match, used, matching)"
    by (simp add: greedy_def vector_def vector_bool_def)
  have "sym_inv n ?s0" by (simp add: sym_inv_def symmetric_match_def)
  have "sym_inv n (match, used, matching)"
    using f \<open>sym_inv n ?s0\<close> r
  proof (induction es arbitrary: match used matching rule: rev_induct)
    case Nil
    then show ?case by simp
  next
    case (snoc e es)
    from snoc.prems(1) obtain t where t: "for_each es greedy_step ?s0 = Inr t"
      "greedy_step e t = Inr (match, used, matching)"
      by (auto simp: for_each_append split: sum.splits)
    obtain m u mt where "t = (m, u, mt)" by (cases t) auto
    with snoc.IH [of m u mt] t(1) snoc.prems(2,3) have "sym_inv n t" by simp
    from greedy_step_sym [OF this _ t(2)] snoc.prems(3) show ?case by simp
  qed
  then show ?thesis by (simp add: sym_inv_def)
qed

lemma findMaxMatching_state_symmetric:
  assumes "new_MinEdgeCover n es = Inr G"
  shows "\<exists>match matching. findMaxMatching_state G = Some (Inr (match, matching)) \<and>
           symmetric_match n match"
proof -
  from new_MinEdgeCover_wf [OF assms] have wf: "wf_graph G" and G: "mec_n G = n" "mec_edges G = es"
    by auto
  from wf G have n: "0 \<le> n" and r: "\<forall>e\<in>set es. in_range n e" by (auto simp: wf_graph_def)
  from findMaxMatching_state_ok [OF wf] G obtain match used matching where
    g: "greedy n es = Inr (match, used, matching)"
       "findMaxMatching_state G = Some (Inr (match, matching))" by auto
  from greedy_symmetric [OF n r g(1)] g(2) show ?thesis by blast
qed

text \<open>The walk along \<open>parent\<close> is never entered (\<open>search_ok\<close>). Entered on a
  path of one edge, it would flip the edge and then read \<open>parent[-1]\<close>.\<close>

lemma augment_reads_before_parent:
  "augment [- 1, 0] [- 1, - 1] 1 = Some (Inl OutOfBounds)"
  by code_simp

section \<open>Kuhn's matching of main.cpp\<close>

lemma link_ok:
  assumes "match_ok V (fst s)" and "0 \<le> to" "to < V" "0 \<le> v" "v < V"
  shows "\<exists>m. link to v s = Inr (True, m, snd s) \<and> match_ok V m"
proof -
  let ?m = "(fst s)[nat to := v, nat v := to]"
  from assms have l: "length (fst s) = nat V"
    and r: "\<forall>i<nat V. fst s ! i = - 1 \<or> (0 \<le> fst s ! i \<and> fst s ! i < V)"
    by (auto simp: match_ok_def)
  from assms(2-5) l have "link to v s = Inr (True, ?m, snd s)"
    by (simp add: link_def put_def in_bounds_def)
  moreover have "match_ok V ?m"
    unfolding match_ok_def
  proof (intro conjI allI impI)
    show "length ?m = nat V" using l by simp
  next
    fix i assume i: "i < nat V"
    with r l assms(2-5) show "?m ! i = - 1 \<or> (0 \<le> ?m ! i \<and> ?m ! i < V)"
      by (cases "nat v = i"; cases "nat to = i") auto
  qed
  ultimately show ?thesis by blast
qed

lemma dfs_loop_ok:
  assumes la: "length adj = nat V"
    and ra: "\<forall>row\<in>set adj. \<forall>x\<in>set row. 0 \<le> x \<and> x < V"
  shows "unset (snd s) = k \<Longrightarrow> match_ok V (fst s) \<Longrightarrow> length (snd s) = nat V \<Longrightarrow>
         0 \<le> v \<Longrightarrow> v < V \<Longrightarrow> \<forall>x\<in>set tos. 0 \<le> x \<and> x < V \<Longrightarrow>
         \<exists>found s'. dfs_loop adj v tos s = Some (Inr (found, s')) \<and> match_ok V (fst s') \<and>
            length (snd s') = nat V \<and> unset (snd s') \<le> unset (snd s)"
proof (induction k arbitrary: v tos s rule: less_induct)
  case (less k)
  note outer = less.IH
  from less.prems(4,5) have v: "0 \<le> v" "v < V" .
  from less.prems(1,2,3,6) show ?case
  proof (induction tos arbitrary: s)
    case Nil
    have "dfs_loop adj v [] s = Some (Inr (False, s))" by (subst dfs_loop.simps) simp
    with Nil show ?case by auto
  next
    case (Cons to rest)
    from Cons.prems have k: "unset (snd s) = k" and m: "match_ok V (fst s)"
      and lu: "length (snd s) = nat V" and to: "0 \<le> to" "to < V"
      and rest: "\<forall>x\<in>set rest. 0 \<le> x \<and> x < V" by auto
    from to lu m have b: "in_bounds (snd s) to" "in_bounds (fst s) to"
      by (auto simp: in_bounds_def match_ok_def)
    show ?case
    proof (cases "snd s ! nat to")
      case True
      from Cons.IH [OF k m lu rest] obtain found s' where
        "dfs_loop adj v rest s = Some (Inr (found, s'))" "match_ok V (fst s')"
        "length (snd s') = nat V" "unset (snd s') \<le> unset (snd s)" by blast
      with True b show ?thesis by (subst dfs_loop.simps) (simp add: at_def)
    next
      case False
      let ?used1 = "(snd s)[nat to := True]"
      from False to lu have dec: "Suc (unset ?used1) = unset (snd s)"
        by (intro unset_update_fresh) auto
      with k have lt: "unset ?used1 < k" by simp
      have lu1: "length ?used1 = nat V" using lu by simp
      show ?thesis
      proof (cases "fst s ! nat to = - 1")
        case True
        from link_ok [of V "(fst s, ?used1)" to v] m to v obtain m' where
          "link to v (fst s, ?used1) = Inr (True, m', ?used1)" "match_ok V m'" by auto
        with True False b lu1 dec show ?thesis
          by (subst dfs_loop.simps) (auto simp: at_def put_def)
      next
        case nm: False
        let ?mt = "fst s ! nat to"
        from m to have "?mt = - 1 \<or> (0 \<le> ?mt \<and> ?mt < V)" by (simp add: match_ok_def)
        with nm have mt: "0 \<le> ?mt" "?mt < V" by auto
        with la have ba: "in_bounds adj ?mt" by (simp add: in_bounds_def)
        from mt la have "adj ! nat ?mt \<in> set adj" by simp
        with ra have row: "\<forall>x\<in>set (adj ! nat ?mt). 0 \<le> x \<and> x < V" by blast
        from outer [OF lt, of "(fst s, ?used1)" ?mt "adj ! nat ?mt"] m lu1 mt row
        obtain found1 s1 where
          n1: "dfs_loop adj ?mt (adj ! nat ?mt) (fst s, ?used1) = Some (Inr (found1, s1))"
          and m1: "match_ok V (fst s1)" and l1: "length (snd s1) = nat V"
          and u1: "unset (snd s1) \<le> unset ?used1" by auto
        show ?thesis
        proof (cases found1)
          case True
          from link_ok [OF m1 to v] obtain m' where
            "link to v s1 = Inr (True, m', snd s1)" "match_ok V m'" by blast
          with True False nm b ba n1 l1 u1 dec show ?thesis
            by (subst dfs_loop.simps) (auto simp: at_def put_def)
        next
          case nf: False
          from u1 lt have "unset (snd s1) < k" by simp
          from outer [OF this refl m1 l1 v rest] obtain found s' where
            "dfs_loop adj v rest s1 = Some (Inr (found, s'))" "match_ok V (fst s')"
            "length (snd s') = nat V" "unset (snd s') \<le> unset (snd s1)" by blast
          with nf False nm b ba n1 u1 dec show ?thesis
            by (subst dfs_loop.simps) (auto simp: at_def put_def)
        qed
      qed
    qed
  qed
qed

lemma dfs_ok:
  assumes "length adj = nat V" and "\<forall>row\<in>set adj. \<forall>x\<in>set row. 0 \<le> x \<and> x < V"
    and "match_ok V (fst s)" and "length (snd s) = nat V" and "0 \<le> v" and "v < V"
  shows "\<exists>found s'. dfs adj v s = Some (Inr (found, s')) \<and> match_ok V (fst s')"
proof -
  from assms(1,5,6) have b: "in_bounds adj v" by (simp add: in_bounds_def)
  from assms(1,5,6) have "adj ! nat v \<in> set adj" by simp
  with assms(2) have "\<forall>x\<in>set (adj ! nat v). 0 \<le> x \<and> x < V" by blast
  from dfs_loop_ok [OF assms(1,2) refl assms(3,4,5,6) this] b show ?thesis
    by (auto simp: dfs_def at_def)
qed

lemma kuhn_loop_ok:
  assumes "length adj = nat V" and "\<forall>row\<in>set adj. \<forall>x\<in>set row. 0 \<le> x \<and> x < V"
  shows "match_ok V match \<Longrightarrow> \<forall>v\<in>set vs. 0 \<le> v \<and> v < V \<Longrightarrow>
         \<exists>match'. kuhn_loop V adj vs match = Some (Inr match') \<and> match_ok V match'"
proof (induction vs arbitrary: match)
  case Nil
  then show ?case by simp
next
  case (Cons v vs)
  from Cons.prems have v: "0 \<le> v" "v < V" and vs: "\<forall>v\<in>set vs. 0 \<le> v \<and> v < V" by auto
  from v Cons.prems(1) have b: "in_bounds match v" by (simp add: in_bounds_def match_ok_def)
  show ?case
  proof (cases "match ! nat v = - 1")
    case False
    with b Cons.IH [OF Cons.prems(1) vs] show ?thesis by (simp add: at_def)
  next
    case True
    from v have V: "\<not> V < 0" by simp
    from dfs_ok [OF assms, of "(match, replicate (nat V) False)" v] Cons.prems(1) v
    obtain found s' where d: "dfs adj v (match, replicate (nat V) False) = Some (Inr (found, s'))"
      "match_ok V (fst s')" by auto
    from Cons.IH [OF d(2) vs] obtain match' where
      "kuhn_loop V adj vs (fst s') = Some (Inr match')" "match_ok V match'" by blast
    with True b V d(1) show ?thesis by (simp add: at_def vector_def vector_bool_def)
  qed
qed

lemma for_each_preserves:
  assumes "for_each xs body s = Inr s'" and "P s"
    and "\<And>x t t'. P t \<Longrightarrow> body x t = Inr t' \<Longrightarrow> P t'"
  shows "P s'"
  using assms(1,2)
proof (induction xs arbitrary: s)
  case Nil
  then show ?case by simp
next
  case (Cons x xs)
  from Cons.prems(1) obtain t where t: "body x s = Inr t" "for_each xs body t = Inr s'"
    by (auto split: sum.splits)
  from assms(3) [OF Cons.prems(2) t(1)] have "P t" .
  from Cons.IH [OF t(2) this] show ?case .
qed

lemma push_back_at_rows:
  assumes "push_back_at adj i x = Inr adj'" and "length adj = nat V"
    and "\<forall>row\<in>set adj. \<forall>y\<in>set row. 0 \<le> y \<and> y < V" and "0 \<le> x" "x < V"
  shows "length adj' = nat V \<and> (\<forall>row\<in>set adj'. \<forall>y\<in>set row. 0 \<le> y \<and> y < V) \<and> 0 \<le> i \<and> i < V"
proof -
  from assms(1) have b: "in_bounds adj i" and a: "adj' = adj[nat i := adj ! nat i @ [x]]"
    by (auto simp: push_back_at_def at_def put_def split: if_splits)
  from b assms(2) have i: "0 \<le> i" "i < V" "nat i < length adj"
    by (auto simp: in_bounds_def split: if_splits)
  have "\<forall>row\<in>set adj'. \<forall>y\<in>set row. 0 \<le> y \<and> y < V"
  proof
    fix row assume "row \<in> set adj'"
    with a have "row \<in> insert (adj ! nat i @ [x]) (set adj)"
      using set_update_subset_insert by fastforce
    moreover from i(3) have "adj ! nat i \<in> set adj" by simp
    ultimately show "\<forall>y\<in>set row. 0 \<le> y \<and> y < V" using assms(3-5) by auto
  qed
  with a assms(2) i show ?thesis by simp
qed

lemma addEdge_inv:
  assumes "graph_inv V g" and "addEdge e g = Inr g'"
  shows "graph_inv V g'"
proof -
  from assms(2) obtain adj1 adj2 where
    a1: "push_back_at (graph_adj g) (edge_u e) (edge_v e) = Inr adj1" and
    a2: "push_back_at adj1 (edge_v e) (edge_u e) = Inr adj2" and
    g': "graph_adj g' = adj2" "graph_V g' = graph_V g"
    by (auto simp: addEdge_def split: sum.splits)
  from assms(1) have V: "0 \<le> V" "graph_V g = V" and l: "length (graph_adj g) = nat V"
    and r: "\<forall>row\<in>set (graph_adj g). \<forall>x\<in>set row. 0 \<le> x \<and> x < V"
    by (auto simp: graph_inv_def)
  from a1 l have u: "0 \<le> edge_u e" "edge_u e < V" and l1: "length adj1 = nat V"
    by (auto simp: push_back_at_def at_def put_def in_bounds_def split: if_splits)
  from a2 l1 have v: "0 \<le> edge_v e" "edge_v e < V"
    by (auto simp: push_back_at_def at_def put_def in_bounds_def split: if_splits)
  from push_back_at_rows [OF a1 l r v] have r1: "\<forall>row\<in>set adj1. \<forall>y\<in>set row. 0 \<le> y \<and> y < V"
    by simp
  from push_back_at_rows [OF a2 l1 r1 u] g' V show ?thesis by (simp add: graph_inv_def)
qed

lemma build_Graph_inv:
  assumes "build_Graph V es = Inr g"
  shows "graph_inv V g"
proof -
  from assms have V: "0 \<le> V"
    and f: "for_each es addEdge \<lparr>graph_V = V, graph_adj = replicate (nat V) [], graph_edges = []\<rparr> = Inr g"
    by (auto simp: build_Graph_def new_Graph_def vector_def vector_bool_def split: if_splits)
  from V have "graph_inv V \<lparr>graph_V = V, graph_adj = replicate (nat V) [], graph_edges = []\<rparr>"
    by (simp add: graph_inv_def)
  from for_each_preserves [where P = "graph_inv V", OF f this] addEdge_inv show ?thesis by blast
qed

lemma Graph_findMaxMatching_ok:
  assumes "build_Graph V es = Inr g"
  shows "\<exists>match. Graph_findMaxMatching g = Some (Inr match) \<and> match_ok V match"
proof -
  from build_Graph_inv [OF assms] have V: "0 \<le> V" "graph_V g = V"
    and l: "length (graph_adj g) = nat V"
    and r: "\<forall>row\<in>set (graph_adj g). \<forall>x\<in>set row. 0 \<le> x \<and> x < V"
    by (auto simp: graph_inv_def)
  have "match_ok V (replicate (nat V) (- 1))" by (simp add: match_ok_def)
  moreover have "\<forall>v\<in>set [0..V - 1]. 0 \<le> v \<and> v < V" by auto
  ultimately obtain match' where
    "kuhn_loop V (graph_adj g) [0..V - 1] (replicate (nat V) (- 1)) = Some (Inr match')"
    "match_ok V match'"
    using kuhn_loop_ok [OF l r] by blast
  with V show ?thesis by (simp add: Graph_findMaxMatching_def vector_def vector_bool_def)
qed

section \<open>The claims\<close>

text \<open>
  Claim C7, as amended. For every \<open>n > -64\<close> and every candidate whose endpoints all lie
  in \<open>[0, n)\<close>, \<open>isEdgeCover n cover\<close> returns \<open>true\<close> if and only if every vertex
  of \<open>[0, n)\<close> is an endpoint of an edge of the candidate. The function is a pure function
  of \<open>n\<close> and the candidate.
\<close>

theorem isEdgeCover_iff_all_touched:
  assumes "- 64 < n" and "\<forall>e\<in>set cover. in_range n e"
  shows "isEdgeCover n cover = Inr (\<forall>i\<in>{0..<n}. \<exists>e\<in>set cover. touches e i)"
proof (cases "0 \<le> n")
  case True
  from isEdgeCover_ok [OF True assms(2)] show ?thesis .
next
  case False
  then have neg: "n < 0" by simp
  with assms(2) have "cover = []" by (cases cover) (auto simp: in_range_nonpositive)
  moreover from neg have "{0..<n} = {}" by simp
  ultimately show ?thesis using isEdgeCover_no_storage [OF assms(1) neg, of cover] by simp
qed

theorem isEdgeCover_iff_all_touched_witness:
  "isEdgeCover 3 [Edge 0 1, Edge 1 2] = Inr True \<and> isEdgeCover 3 [Edge 0 1] = Inr False \<and>
   isEdgeCover (- 1) [] = Inr True"
proof -
  have r1: "\<forall>e\<in>set [Edge 0 1, Edge 1 2]. in_range 3 e" by (simp add: in_range_def)
  have r2: "\<forall>e\<in>set [Edge 0 1]. in_range 3 e" by (simp add: in_range_def)
  have all: "\<forall>i\<in>{0..<3::int}. i = 0 \<or> i = 1 \<or> i = 2" by auto
  have t1: "\<forall>i\<in>{0..<3}. \<exists>e\<in>set [Edge 0 1, Edge 1 2]. touches e i"
    using all by (auto simp: touches_def)
  have t2: "\<not> (\<forall>i\<in>{0..<3}. \<exists>e\<in>set [Edge 0 1]. touches e i)"
  proof
    assume "\<forall>i\<in>{0..<3}. \<exists>e\<in>set [Edge 0 1]. touches e i"
    then have "\<exists>e\<in>set [Edge 0 1]. touches e 2" by (rule bspec) simp
    then show False by (simp add: touches_def)
  qed
  from isEdgeCover_iff_all_touched [of 3 "[Edge 0 1, Edge 1 2]", OF _ r1] t1
  have "isEdgeCover 3 [Edge 0 1, Edge 1 2] = Inr True" by simp
  moreover from isEdgeCover_iff_all_touched [of 3 "[Edge 0 1]", OF _ r2] t2
  have "isEdgeCover 3 [Edge 0 1] = Inr False" by simp
  moreover from isEdgeCover_iff_all_touched [of "- 1" "[]"]
  have "isEdgeCover (- 1) [] = Inr True" by simp
  ultimately show ?thesis by simp
qed

text \<open>
  For \<open>n = -64\<close> the only candidate with all endpoints in \<open>[0, n)\<close> is the empty one
  and no vertex has to be covered, so the claim as written asks for \<open>true\<close>; the
  allocation of the flag array fails and the call does not return a value.
\<close>

theorem isEdgeCover_negative_counterexample: "isEdgeCover (- 64) [] = Inl BadAlloc"
  by (simp add: isEdgeCover_def vector_bool_def)

text \<open>
  Claim C10, as amended. For every \<open>n > -64\<close>, \<open>isEdgeCover n cover\<close> marks
  \<open>covered[e.u]\<close> and \<open>covered[e.v]\<close> with no range check: an access is out of
  bounds exactly when some endpoint of a candidate edge lies outside \<open>[0, n)\<close>; in
  particular every non-empty candidate is out of bounds when \<open>n = 0\<close>.
\<close>

theorem isEdgeCover_in_bounds_iff:
  assumes "- 64 < n"
  shows "(isEdgeCover n cover \<noteq> Inl OutOfBounds \<longleftrightarrow> (\<forall>e\<in>set cover. in_range n e)) \<and>
         (n = 0 \<and> cover \<noteq> [] \<longrightarrow> isEdgeCover n cover = Inl OutOfBounds)"
proof (cases "0 \<le> n")
  case nn: True
  show ?thesis
  proof (cases "\<forall>e\<in>set cover. in_range n e")
    case True
    from isEdgeCover_ok [OF nn True] True show ?thesis
      by (cases cover) (auto simp: in_range_def)
  next
    case False
    then have "\<exists>e\<in>set cover. \<not> in_range n e" by simp
    from isEdgeCover_bad [OF nn this] False show ?thesis by auto
  qed
next
  case False
  then have neg: "n < 0" by simp
  then have "(\<forall>e\<in>set cover. in_range n e) \<longleftrightarrow> cover = []"
    by (cases cover) (auto simp: in_range_nonpositive)
  with isEdgeCover_no_storage [OF assms neg, of cover] neg show ?thesis by simp
qed

theorem isEdgeCover_in_bounds_iff_witness:
  "isEdgeCover 0 [Edge 0 0] = Inl OutOfBounds \<and> isEdgeCover 2 [Edge 0 2] = Inl OutOfBounds \<and>
   isEdgeCover 2 [Edge 0 1] \<noteq> Inl OutOfBounds \<and> isEdgeCover (- 1) [Edge 0 0] = Inl OutOfBounds"
proof -
  have a: "isEdgeCover 0 [Edge 0 0] = Inl OutOfBounds"
    using isEdgeCover_in_bounds_iff [of 0 "[Edge 0 0]"] by simp
  have b: "isEdgeCover 2 [Edge 0 2] = Inl OutOfBounds"
    using isEdgeCover_in_bounds_iff [of 2 "[Edge 0 2]"] by (simp add: in_range_def)
  have c: "isEdgeCover 2 [Edge 0 1] \<noteq> Inl OutOfBounds"
    using isEdgeCover_in_bounds_iff [of 2 "[Edge 0 1]"] by (simp add: in_range_def)
  have d: "isEdgeCover (- 1) [Edge 0 0] = Inl OutOfBounds"
    using isEdgeCover_in_bounds_iff [of "- 1" "[Edge 0 0]"] by (simp add: in_range_def)
  from a b c d show ?thesis by simp
qed

text \<open>
  For \<open>n = -64\<close> the endpoint \<open>0\<close> of the candidate lies outside \<open>[0, n)\<close>, yet no
  access is out of bounds: the allocation of the flag array fails before any access.
\<close>

theorem isEdgeCover_no_access_counterexample: "isEdgeCover (- 64) [Edge 0 0] = Inl BadAlloc"
  by (simp add: isEdgeCover_def vector_bool_def)

text \<open>
  Claim C3. For every validly constructed graph, \<open>solve\<close> returns an edge list on which
  \<open>isEdgeCover(n, solve())\<close> is \<open>true\<close>: every vertex in \<open>[0, n)\<close> is an endpoint of
  at least one returned edge.
\<close>

theorem solve_is_edge_cover:
  assumes "new_MinEdgeCover n es = Inr G"
  shows "\<exists>cover. solve G = Some (Inr cover) \<and> isEdgeCover n cover = Inr True \<and>
           (\<forall>i\<in>{0..<n}. \<exists>e\<in>set cover. touches e i)"
proof -
  from new_MinEdgeCover_wf [OF assms] have wf: "wf_graph G" and G: "mec_n G = n" "mec_edges G = es"
    by auto
  from solve_ok [OF wf] G obtain cover where c: "solve G = Some (Inr cover)"
    "set cover \<subseteq> set es" "\<forall>i\<in>{0..<n}. \<exists>e\<in>set cover. touches e i" by auto
  from wf G have n: "0 \<le> n" and r: "\<forall>e\<in>set es. in_range n e" by (auto simp: wf_graph_def)
  from r c(2) have "\<forall>e\<in>set cover. in_range n e" by blast
  from isEdgeCover_ok [OF n this] c(3) have "isEdgeCover n cover = Inr True" by simp
  with c show ?thesis by blast
qed

theorem solve_is_edge_cover_witness:
  "new_MinEdgeCover 3 [Edge 0 1, Edge 1 2, Edge 2 0] =
     Inr \<lparr>mec_n = 3, mec_edges = [Edge 0 1, Edge 1 2, Edge 2 0],
          mec_adj = [[1, 2], [0, 2], [1, 0]]\<rparr> \<and>
   (\<exists>cover. solve \<lparr>mec_n = 3, mec_edges = [Edge 0 1, Edge 1 2, Edge 2 0],
                    mec_adj = [[1, 2], [0, 2], [1, 0]]\<rparr> = Some (Inr cover) \<and>
            isEdgeCover 3 cover = Inr True)"
proof -
  have c: "new_MinEdgeCover 3 [Edge 0 1, Edge 1 2, Edge 2 0] =
     Inr \<lparr>mec_n = 3, mec_edges = [Edge 0 1, Edge 1 2, Edge 2 0],
          mec_adj = [[1, 2], [0, 2], [1, 0]]\<rparr>"
    by code_simp
  from solve_is_edge_cover [OF c] c show ?thesis by blast
qed

text \<open>
  Claim C6, as amended. Once construction has succeeded, \<open>solve\<close> raises no error and
  returns: the greedy loop, the search (which ends with \<open>pathEnd == -1\<close>, so that the
  walk along \<open>parent\<close> is not entered) and the completion of the cover keep every array
  access in bounds. \<open>isEdgeCover\<close> raises no error and returns on the result of
  \<open>solve\<close> and on every candidate whose endpoints all lie in \<open>[0, n)\<close>.
\<close>

theorem solve_isEdgeCover_total:
  assumes "new_MinEdgeCover n es = Inr G"
  shows "(\<exists>match used matching st cover b.
            greedy n es = Inr (match, used, matching) \<and>
            search n (mec_adj G) match = Inr st \<and> pathEnd st = - 1 \<and>
            findMaxMatching G = Some (Inr matching) \<and>
            solve G = Some (Inr cover) \<and> isEdgeCover n cover = Inr b) \<and>
         (\<forall>candidate. (\<forall>e\<in>set candidate. in_range n e) \<longrightarrow>
            (\<exists>b. isEdgeCover n candidate = Inr b))"
proof -
  from new_MinEdgeCover_wf [OF assms] have wf: "wf_graph G" and G: "mec_n G = n" "mec_edges G = es"
    by auto
  from wf G have n: "0 \<le> n" and r: "\<forall>e\<in>set es. in_range n e"
    and la: "length (mec_adj G) = nat n"
    and ra: "\<forall>row\<in>set (mec_adj G). \<forall>x\<in>set row. 0 \<le> x \<and> x < n"
    by (auto simp: wf_graph_def)
  from findMaxMatching_state_ok [OF wf] G obtain match used matching where
    g: "greedy n es = Inr (match, used, matching)" "greedy_inv n es (match, used, matching)"
       "findMaxMatching_state G = Some (Inr (match, matching))" by auto
  from g(2) have "match_ok n match" by (simp add: greedy_inv_def match_ok_def)
  from search_ok [OF this n la ra] obtain st where
    st: "search n (mec_adj G) match = Inr st" "pathEnd st = - 1" by blast
  from g(3) have f: "findMaxMatching G = Some (Inr matching)" by (simp add: findMaxMatching_def)
  from solve_ok [OF wf] G obtain cover where c: "solve G = Some (Inr cover)"
    "set cover \<subseteq> set es" by auto
  from r c(2) have "\<forall>e\<in>set cover. in_range n e" by blast
  from isEdgeCover_ok [OF n this] obtain b where "isEdgeCover n cover = Inr b" by blast
  with g(1) st f c(1) have first: "\<exists>match used matching st cover b.
            greedy n es = Inr (match, used, matching) \<and>
            search n (mec_adj G) match = Inr st \<and> pathEnd st = - 1 \<and>
            findMaxMatching G = Some (Inr matching) \<and>
            solve G = Some (Inr cover) \<and> isEdgeCover n cover = Inr b" by blast
  have second: "\<forall>candidate. (\<forall>e\<in>set candidate. in_range n e) \<longrightarrow>
            (\<exists>b. isEdgeCover n candidate = Inr b)"
    using isEdgeCover_ok [OF n] by blast
  from first second show ?thesis by blast
qed

theorem solve_isEdgeCover_total_witness:
  "(\<exists>match used matching st cover b.
     greedy 4 [Edge 1 2, Edge 0 1, Edge 2 3] = Inr (match, used, matching) \<and>
     search 4 [[1], [2, 0], [1, 3], [2]] match = Inr st \<and> pathEnd st = - 1 \<and>
     findMaxMatching \<lparr>mec_n = 4, mec_edges = [Edge 1 2, Edge 0 1, Edge 2 3],
                      mec_adj = [[1], [2, 0], [1, 3], [2]]\<rparr> = Some (Inr matching) \<and>
     solve \<lparr>mec_n = 4, mec_edges = [Edge 1 2, Edge 0 1, Edge 2 3],
            mec_adj = [[1], [2, 0], [1, 3], [2]]\<rparr> = Some (Inr cover) \<and>
     isEdgeCover 4 cover = Inr b) \<and>
   (\<exists>b. isEdgeCover 4 [Edge 3 0, Edge 1 1] = Inr b)"
proof -
  have c: "new_MinEdgeCover 4 [Edge 1 2, Edge 0 1, Edge 2 3] =
     Inr \<lparr>mec_n = 4, mec_edges = [Edge 1 2, Edge 0 1, Edge 2 3],
          mec_adj = [[1], [2, 0], [1, 3], [2]]\<rparr>"
    by code_simp
  have r: "\<forall>e\<in>set [Edge 3 0, Edge 1 1]. in_range 4 e" by (simp add: in_range_def)
  note t = solve_isEdgeCover_total [OF c]
  from t have "\<exists>match used matching st cover b.
     greedy 4 [Edge 1 2, Edge 0 1, Edge 2 3] = Inr (match, used, matching) \<and>
     search 4 [[1], [2, 0], [1, 3], [2]] match = Inr st \<and> pathEnd st = - 1 \<and>
     findMaxMatching \<lparr>mec_n = 4, mec_edges = [Edge 1 2, Edge 0 1, Edge 2 3],
                      mec_adj = [[1], [2, 0], [1, 3], [2]]\<rparr> = Some (Inr matching) \<and>
     solve \<lparr>mec_n = 4, mec_edges = [Edge 1 2, Edge 0 1, Edge 2 3],
            mec_adj = [[1], [2, 0], [1, 3], [2]]\<rparr> = Some (Inr cover) \<and>
     isEdgeCover 4 cover = Inr b" by simp
  moreover from t r have "\<exists>b. isEdgeCover 4 [Edge 3 0, Edge 1 1] = Inr b" by blast
  ultimately show ?thesis by blast
qed

text \<open>
  On a validly constructed graph with two vertices, \<open>isEdgeCover\<close> on a candidate with
  the endpoint \<open>2\<close> indexes the flag array out of bounds.
\<close>

theorem isEdgeCover_not_total_counterexample:
  "new_MinEdgeCover 2 [Edge 0 1] =
     Inr \<lparr>mec_n = 2, mec_edges = [Edge 0 1], mec_adj = [[1], [0]]\<rparr> \<and>
   isEdgeCover 2 [Edge 0 2] = Inl OutOfBounds"
  by code_simp

text \<open>
  Claim C8. For every validly constructed graph, the sequence returned by \<open>solve\<close> holds
  no edge twice under the undirected equality of \<open>Edge::operator==\<close>: no two of its
  elements denote the same unordered pair.
\<close>

theorem solve_no_duplicate_edges:
  assumes "new_MinEdgeCover n es = Inr G"
  shows "\<exists>cover. solve G = Some (Inr cover) \<and>
           (\<forall>i j. i < j \<and> j < length cover \<longrightarrow> \<not> edge_eq (cover ! i) (cover ! j))"
proof -
  from new_MinEdgeCover_wf [OF assms] have wf: "wf_graph G" by simp
  from solve_ok [OF wf] obtain cover where c: "solve G = Some (Inr cover)" "distinct_edges cover"
    by blast
  from c(2) have "\<forall>i j. i < j \<and> j < length cover \<longrightarrow> \<not> edge_eq (cover ! i) (cover ! j)"
    by (auto dest: distinct_edges_nth)
  with c(1) show ?thesis by blast
qed

theorem solve_no_duplicate_edges_witness:
  "\<exists>cover. solve \<lparr>mec_n = 3, mec_edges = [Edge 0 0, Edge 1 0, Edge 0 1, Edge 2 1, Edge 1 2],
                   mec_adj = [[0, 0, 1, 1], [0, 0, 2, 2], [1, 1]]\<rparr> = Some (Inr cover) \<and>
           \<not> edge_eq (cover ! 0) (cover ! 1)"
proof -
  have c: "new_MinEdgeCover 3 [Edge 0 0, Edge 1 0, Edge 0 1, Edge 2 1, Edge 1 2] =
     Inr \<lparr>mec_n = 3, mec_edges = [Edge 0 0, Edge 1 0, Edge 0 1, Edge 2 1, Edge 1 2],
          mec_adj = [[0, 0, 1, 1], [0, 0, 2, 2], [1, 1]]\<rparr>"
    by code_simp
  from solve_no_duplicate_edges [OF c] obtain cover where
    s: "solve \<lparr>mec_n = 3, mec_edges = [Edge 0 0, Edge 1 0, Edge 0 1, Edge 2 1, Edge 1 2],
               mec_adj = [[0, 0, 1, 1], [0, 0, 2, 2], [1, 1]]\<rparr> = Some (Inr cover)"
    and d: "\<forall>i j. i < j \<and> j < length cover \<longrightarrow> \<not> edge_eq (cover ! i) (cover ! j)"
    by blast
  have "solve \<lparr>mec_n = 3, mec_edges = [Edge 0 0, Edge 1 0, Edge 0 1, Edge 2 1, Edge 1 2],
               mec_adj = [[0, 0, 1, 1], [0, 0, 2, 2], [1, 1]]\<rparr> = Some (Inr [Edge 0 0, Edge 2 1])"
    by code_simp
  with s have "cover = [Edge 0 0, Edge 2 1]" by simp
  then have "length cover = 2" by simp
  with d have "\<not> edge_eq (cover ! 0) (cover ! 1)" by simp
  with s show ?thesis by blast
qed

text \<open>
  Claim C9. For every validly constructed graph the matching engines return. In graph.hpp
  the improvement loop started on the greedy matching ends after finitely many passes (its
  first search leaves \<open>pathEnd == -1\<close>). In main.cpp every \<open>dfs\<close> on arrays of the
  graph's size returns, each recursive call coming after a fresh vertex was marked used, and
  so does \<open>findMaxMatching\<close>.
\<close>

theorem matching_engines_terminate:
  assumes "new_MinEdgeCover n es = Inr G" and "build_Graph V es' = Inr g"
  shows "(\<exists>match used matching.
            greedy n es = Inr (match, used, matching) \<and>
            improve n (mec_adj G) match matching = Some (Inr (match, matching)) \<and>
            findMaxMatching G = Some (Inr matching)) \<and>
         (\<forall>v match used. 0 \<le> v \<and> v < V \<and> match_ok V match \<and> length used = nat V \<longrightarrow>
            (\<exists>r. dfs (graph_adj g) v (match, used) = Some (Inr r))) \<and>
         (\<exists>match. Graph_findMaxMatching g = Some (Inr match))"
proof -
  from new_MinEdgeCover_wf [OF assms(1)] have wf: "wf_graph G"
    and G: "mec_n G = n" "mec_edges G = es" by auto
  from findMaxMatching_state_ok [OF wf] G obtain match used matching where
    g: "greedy n es = Inr (match, used, matching)"
       "findMaxMatching_state G = Some (Inr (match, matching))" by auto
  from g G have "improve n (mec_adj G) match matching = Some (Inr (match, matching))"
    by (simp add: findMaxMatching_state_def)
  moreover from g(2) have "findMaxMatching G = Some (Inr matching)"
    by (simp add: findMaxMatching_def)
  ultimately have first: "\<exists>match used matching.
            greedy n es = Inr (match, used, matching) \<and>
            improve n (mec_adj G) match matching = Some (Inr (match, matching)) \<and>
            findMaxMatching G = Some (Inr matching)"
    using g(1) by blast
  from build_Graph_inv [OF assms(2)] have l: "length (graph_adj g) = nat V"
    and r: "\<forall>row\<in>set (graph_adj g). \<forall>x\<in>set row. 0 \<le> x \<and> x < V"
    by (auto simp: graph_inv_def)
  have second: "\<forall>v match used. 0 \<le> v \<and> v < V \<and> match_ok V match \<and> length used = nat V \<longrightarrow>
            (\<exists>r. dfs (graph_adj g) v (match, used) = Some (Inr r))"
  proof (intro allI impI)
    fix v :: int and match :: "int list" and used :: "bool list"
    assume a: "0 \<le> v \<and> v < V \<and> match_ok V match \<and> length used = nat V"
    from dfs_ok [OF l r, of "(match, used)" v] a
    show "\<exists>r. dfs (graph_adj g) v (match, used) = Some (Inr r)" by auto
  qed
  from Graph_findMaxMatching_ok [OF assms(2)]
  have third: "\<exists>match. Graph_findMaxMatching g = Some (Inr match)" by blast
  from first second third show ?thesis by blast
qed

theorem matching_engines_terminate_witness:
  "(\<exists>matching. findMaxMatching \<lparr>mec_n = 3, mec_edges = [Edge 0 1, Edge 1 2, Edge 2 0],
                    mec_adj = [[1, 2], [0, 2], [1, 0]]\<rparr> = Some (Inr matching)) \<and>
   (\<exists>r. dfs [[1, 2], [0, 2], [1, 0]] 2 ([1, 0, - 1], [False, False, False]) = Some (Inr r)) \<and>
   (\<exists>match. Graph_findMaxMatching \<lparr>graph_V = 3, graph_adj = [[1, 2], [0, 2], [1, 0]],
                    graph_edges = [Edge 0 1, Edge 1 2, Edge 0 2]\<rparr> = Some (Inr match))"
proof -
  have c: "new_MinEdgeCover 3 [Edge 0 1, Edge 1 2, Edge 2 0] =
     Inr \<lparr>mec_n = 3, mec_edges = [Edge 0 1, Edge 1 2, Edge 2 0],
          mec_adj = [[1, 2], [0, 2], [1, 0]]\<rparr>"
    by code_simp
  have b: "build_Graph 3 [Edge 0 1, Edge 1 2, Edge 2 0] =
     Inr \<lparr>graph_V = 3, graph_adj = [[1, 2], [0, 2], [1, 0]],
          graph_edges = [Edge 0 1, Edge 1 2, Edge 0 2]\<rparr>"
    by code_simp
  have m: "match_ok 3 [1, 0, - 1]"
    by (simp add: match_ok_def less_Suc_eq numeral_3_eq_3)
  note t = matching_engines_terminate [OF c b]
  from t have "\<exists>matching. findMaxMatching \<lparr>mec_n = 3, mec_edges = [Edge 0 1, Edge 1 2, Edge 2 0],
                    mec_adj = [[1, 2], [0, 2], [1, 0]]\<rparr> = Some (Inr matching)" by blast
  moreover from t m
  have "\<exists>r. dfs [[1, 2], [0, 2], [1, 0]] 2 ([1, 0, - 1], [False, False, False]) = Some (Inr r)"
    by simp
  moreover from t
  have "\<exists>match. Graph_findMaxMatching \<lparr>graph_V = 3, graph_adj = [[1, 2], [0, 2], [1, 0]],
                    graph_edges = [Edge 0 1, Edge 1 2, Edge 0 2]\<rparr> = Some (Inr match)"
    by simp
  ultimately show ?thesis by blast
qed

text \<open>
  Claim C1 fails on the code. On the path \<open>0 - 1 - 2 - 3\<close> with the edges given as
  \<open>{1,2}, {0,1}, {2,3}\<close>, \<open>solve\<close> of graph.hpp returns three edges, while the two
  edges \<open>{0,1}, {2,3}\<close> of the graph cover every vertex and form a matching, so that the
  minimum and \<open>n\<close> minus the size of a maximum matching are both \<open>2\<close>. On the graph
  with the edges \<open>{0,1}, {0,2}, {0,3}, {1,2}\<close>, \<open>findMinEdgeCover\<close> of main.cpp returns
  three edges, while \<open>{0,3}, {1,2}\<close> cover every vertex.
\<close>

theorem solve_not_minimum:
  "new_MinEdgeCover 4 [Edge 1 2, Edge 0 1, Edge 2 3] =
     Inr \<lparr>mec_n = 4, mec_edges = [Edge 1 2, Edge 0 1, Edge 2 3],
          mec_adj = [[1], [2, 0], [1, 3], [2]]\<rparr> \<and>
   solve \<lparr>mec_n = 4, mec_edges = [Edge 1 2, Edge 0 1, Edge 2 3],
          mec_adj = [[1], [2, 0], [1, 3], [2]]\<rparr> = Some (Inr [Edge 1 2, Edge 0 1, Edge 2 3]) \<and>
   isEdgeCover 4 [Edge 0 1, Edge 2 3] = Inr True \<and>
   is_matching [Edge 1 2, Edge 0 1, Edge 2 3] [Edge 0 1, Edge 2 3] \<and>
   build_Graph 4 [Edge 0 1, Edge 0 2, Edge 0 3, Edge 1 2] =
     Inr \<lparr>graph_V = 4, graph_adj = [[1, 2, 3], [0, 2], [0, 1], [0]],
          graph_edges = [Edge 0 1, Edge 0 2, Edge 0 3, Edge 1 2]\<rparr> \<and>
   findMinEdgeCover \<lparr>graph_V = 4, graph_adj = [[1, 2, 3], [0, 2], [0, 1], [0]],
          graph_edges = [Edge 0 1, Edge 0 2, Edge 0 3, Edge 1 2]\<rparr> =
     Some (Inr [Edge 0 2, Edge 0 3, Edge 1 2]) \<and>
   isEdgeCover 4 [Edge 0 3, Edge 1 2] = Inr True"
  by code_simp

text \<open>
  Claim C2 fails on the code. On the path \<open>0 - 1 - 2 - 3\<close> with the edges given as
  \<open>{1,2}, {0,1}, {2,3}\<close>, \<open>findMaxMatching\<close> of graph.hpp returns the single edge
  \<open>{1,2}\<close> that the greedy loop chose, while \<open>{0,1}, {2,3}\<close> is a matching of the
  graph with two edges. On the graph with the edges \<open>{0,1}, {0,2}, {0,3}, {1,2}\<close>,
  \<open>findMaxMatching\<close> of main.cpp returns \<open>match = [2, 2, 0, -1]\<close>, which pairs the
  vertex \<open>2\<close> with both \<open>0\<close> and \<open>1\<close> and leaves \<open>3\<close> unmatched, while
  \<open>{0,3}, {1,2}\<close> is a matching of the graph with two edges.
\<close>

theorem findMaxMatching_not_maximum:
  "findMaxMatching \<lparr>mec_n = 4, mec_edges = [Edge 1 2, Edge 0 1, Edge 2 3],
          mec_adj = [[1], [2, 0], [1, 3], [2]]\<rparr> = Some (Inr [Edge 1 2]) \<and>
   is_matching [Edge 1 2, Edge 0 1, Edge 2 3] [Edge 0 1, Edge 2 3] \<and>
   Graph_findMaxMatching \<lparr>graph_V = 4, graph_adj = [[1, 2, 3], [0, 2], [0, 1], [0]],
          graph_edges = [Edge 0 1, Edge 0 2, Edge 0 3, Edge 1 2]\<rparr> =
     Some (Inr [2, 2, 0, - 1]) \<and>
   is_matching [Edge 0 1, Edge 0 2, Edge 0 3, Edge 1 2] [Edge 0 3, Edge 1 2]"
  by code_simp

text \<open>
  Claim C4 fails on the code of main.cpp. On the triangle of its first test, Kuhn's
  \<open>findMaxMatching\<close> returns \<open>match = [2, 2, 1]\<close>: \<open>match[0]\<close> is \<open>2\<close> but
  \<open>match[2]\<close> is \<open>1\<close>, and the vertex \<open>2\<close> is the partner of both \<open>0\<close> and
  \<open>1\<close>.
\<close>

theorem Graph_findMaxMatching_not_symmetric:
  "build_Graph 3 [Edge 0 1, Edge 1 2, Edge 2 0] =
     Inr \<lparr>graph_V = 3, graph_adj = [[1, 2], [0, 2], [1, 0]],
          graph_edges = [Edge 0 1, Edge 1 2, Edge 0 2]\<rparr> \<and>
   Graph_findMaxMatching \<lparr>graph_V = 3, graph_adj = [[1, 2], [0, 2], [1, 0]],
          graph_edges = [Edge 0 1, Edge 1 2, Edge 0 2]\<rparr> = Some (Inr [2, 2, 1])"
  by code_simp

text \<open>
  Claim C5 fails on the code for a negative vertex count. The member initialiser
  \<open>adj(vertices)\<close> runs before the test \<open>vertices <= 0\<close> of the constructor's body, so
  a negative count fails with the length error of the vector and not with
  \<open>InvalidArgument\<close>; a count of \<open>0\<close> does fail with \<open>InvalidArgument\<close>.
\<close>

theorem new_MinEdgeCover_negative:
  "new_MinEdgeCover (- 1) [] = Inl LengthError \<and> new_MinEdgeCover 0 [] = Inl InvalidArgument"
  by code_simp

end
